theory Spec2Isabelle
  imports Main "HOL-Library.Word" "HOL-Library.AList"
begin

unbundle bit_operations_syntax

section \<open>disasm51: a shallow embedding of the analyzer core\<close>

text \<open>
  The Python sources embedded here are \<^verbatim>\<open>utils.py\<close>, \<^verbatim>\<open>instructions.py\<close> and
  \<^verbatim>\<open>codeanalyzer.py\<close> of the package \<^verbatim>\<open>disasm51\<close>. Python integers are unbounded and
  become \<open>int\<close>; a \<^verbatim>\<open>bytes\<close> object becomes a list of 8-bit words; every exception the
  code can raise is a value of the type \<open>error\<close>, and a function that can raise returns
  \<open>error + 'a\<close> with \<open>Inl\<close> for the exception. Record fields carry a short prefix
  (\<open>i_\<close>, \<open>ia_\<close>, \<open>ca_\<close>) because field selectors are global constants in HOL.
\<close>

datatype error = IndexError | AssertionError | ValueError

subsection \<open>utils.py: number formatting\<close>

definition hex_digit :: "nat \<Rightarrow> char" where
  "hex_digit d = ''0123456789ABCDEF'' ! d"

fun hex_nat :: "nat \<Rightarrow> string" where
  "hex_nat n = (if n < 16 then [hex_digit n] else hex_nat (n div 16) @ [hex_digit (n mod 16)])"

fun dec_nat :: "nat \<Rightarrow> string" where
  "dec_nat n = (if n < 10 then [hex_digit n] else dec_nat (n div 10) @ [hex_digit (n mod 10)])"

text \<open>\<^verbatim>\<open>'%0wX' % x\<close>: upper-case hexadecimal, the sign first, zeros up to width \<open>w\<close>.\<close>

definition fmt_0X :: "nat \<Rightarrow> int \<Rightarrow> string" where
  "fmt_0X w x =
     (if 0 \<le> x then (let s = hex_nat (nat x) in replicate (w - length s) CHR ''0'' @ s)
      else (let s = hex_nat (nat (- x)) in CHR ''-'' # replicate (w - 1 - length s) CHR ''0'' @ s))"

text \<open>\<^verbatim>\<open>'%wd' % x\<close>: decimal, right-justified with spaces in width \<open>w\<close>.\<close>

definition fmt_d :: "nat \<Rightarrow> int \<Rightarrow> string" where
  "fmt_d w x =
     (let s = (if 0 \<le> x then dec_nat (nat x) else CHR ''-'' # dec_nat (nat (- x)))
      in replicate (w - length s) CHR '' '' @ s)"

definition isdigit :: "char \<Rightarrow> bool" where
  "isdigit c = (c \<in> set ''0123456789'')"

definition int2hex :: "int \<Rightarrow> string" where
  "int2hex x =
     (let s = fmt_0X 2 x @ ''h'' in if \<not> isdigit (hd s) then CHR ''0'' # s else s)"

text \<open>
  \<^verbatim>\<open>chr(byte).isprintable()\<close> for a code point below 256: the ASCII range from the space
  to the tilde, and the Latin-1 range above the no-break space without the soft hyphen.
\<close>

definition isprintable :: "int \<Rightarrow> bool" where
  "isprintable b = ((0x20 \<le> b \<and> b \<le> 0x7E) \<or> (0xA1 \<le> b \<and> b \<le> 0xFF \<and> b \<noteq> 0xAD))"

definition binary_hint :: "int \<Rightarrow> string" where
  "binary_hint byte =
     (let s = fmt_d 3 byte;
          s = (if byte \<ge> 0x80 then s @ '' '' @ fmt_d 4 (byte - 0x100) else s)
      in if isprintable byte then s @ '' '' @ [CHR 0x27] @ [char_of byte] @ [CHR 0x27] else s)"

definition binary_byte :: "int \<Rightarrow> int \<Rightarrow> string" where
  "binary_byte byte pc =
     [CHR 0x09] @ ''db '' @ int2hex byte @ [CHR 0x09] @ ''; ['' @ fmt_0X 4 pc @ ''h] ''
       @ binary_hint byte"

definition binary_word :: "int \<Rightarrow> int \<Rightarrow> string" where
  "binary_word word pc =
     [CHR 0x09] @ ''dw '' @ int2hex word @ [CHR 0x09] @ ''; ['' @ fmt_0X 4 pc @ ''h]''"


subsection \<open>instructions.py: the catalog\<close>

datatype ArgType = IMM | DATA | BIT | LABEL | REL | ADDR

text \<open>
  \<^verbatim>\<open>class Instruction\<close>. The constructor's default \<^verbatim>\<open>args=None\<close> is the empty list here:
  the code only tests \<^verbatim>\<open>instr.args\<close> for truth and iterates over it.
\<close>

record Instruction =
  i_code :: int
  i_length :: int
  i_mnemonic :: string
  i_args :: "ArgType list"
  i_jump_out :: bool
  i_no_jump :: bool

definition Instruction :: "int \<Rightarrow> int \<Rightarrow> string \<Rightarrow> ArgType list \<Rightarrow> bool \<Rightarrow> bool \<Rightarrow> Instruction" where
  "Instruction c l m a jo nj =
     \<lparr>i_code = c, i_length = l, i_mnemonic = m, i_args = a, i_jump_out = jo, i_no_jump = nj\<rparr>"

text \<open>The dictionary literal of the first loop, in insertion order: (msb, prefix, suffix, direct).\<close>

definition msb_table :: "(int \<times> string \<times> string \<times> bool) list" where
  "msb_table =
     [(0x00, ''inc'', '''', True), (0x10, ''dec'', '''', True), (0x20, ''add A,'', '''', True),
      (0x30, ''addc A,'', '''', True), (0x40, ''orl A,'', '''', True), (0x50, ''anl A,'', '''', True),
      (0x60, ''xrl A,'', '''', True), (0x90, ''subb A,'', '''', True), (0xC0, ''xch A,'', '''', True),
      (0xD0, ''xchd A,'', '''', False), (0xE0, ''mov A,'', '''', True), (0xF0, ''mov'', '', A'', True)]"

definition msb_adds :: "int \<times> string \<times> string \<times> bool \<Rightarrow> Instruction list" where
  "msb_adds = (\<lambda>(msb, prefix, suffix, direct).
     map (\<lambda>reg. Instruction (msb OR (reg + 6)) 1 (prefix @ '' @R'' @ dec_nat (nat reg) @ suffix)
                   [] False False) [0..1]
     @ (if direct
        then map (\<lambda>reg. Instruction (msb OR (reg + 8)) 1 (prefix @ '' R'' @ dec_nat (nat reg) @ suffix)
                   [] False False) [0..7]
        else []))"

definition reg_adds :: "int \<Rightarrow> Instruction list" where
  "reg_adds reg =
     [Instruction (0x78 OR reg) 2 (''mov R'' @ dec_nat (nat reg) @ '', #{0}'') [IMM] False False,
      Instruction (0x88 OR reg) 2 (''mov {0}, R'' @ dec_nat (nat reg)) [DATA] False False,
      Instruction (0xA8 OR reg) 2 (''mov R'' @ dec_nat (nat reg) @ '', {0}'') [DATA] False False,
      Instruction (0xB8 OR reg) 3 (''cjne R'' @ dec_nat (nat reg) @ '', #{0}, {1}'') [IMM, REL] False False,
      Instruction (0xD8 OR reg) 2 (''djnz R'' @ dec_nat (nat reg) @ '', {0}'') [REL] False False]"

definition addr_adds :: "int \<Rightarrow> Instruction list" where
  "addr_adds addr =
     [Instruction (0x01 OR push_bit 5 addr) 2 ''ajmp {0}'' [ADDR] True False,
      Instruction (0x11 OR push_bit 5 addr) 2 ''acall {0}'' [ADDR] False False]"

definition single_adds :: "Instruction list" where
  "single_adds =
     [Instruction 0x00 1 ''nop'' [] False False,
      Instruction 0x02 3 ''ljmp {0}'' [LABEL] True False,
      Instruction 0x03 1 ''rr A'' [] False False,
      Instruction 0x04 1 ''inc A'' [] False False,
      Instruction 0x05 2 ''inc {0}'' [DATA] False False,
      Instruction 0x10 3 ''jbc {0}, {1}'' [BIT, REL] False False,
      Instruction 0x12 3 ''lcall {0}'' [LABEL] False False,
      Instruction 0x13 1 ''rrc A'' [] False False,
      Instruction 0x14 1 ''dec A'' [] False False,
      Instruction 0x15 2 ''dec {0}'' [DATA] False False,
      Instruction 0x20 3 ''jb {0}, {1}'' [BIT, REL] False False,
      Instruction 0x22 1 ''ret'' [] True False,
      Instruction 0x23 1 ''rl A'' [] False False,
      Instruction 0x24 2 ''add A, #{0}'' [IMM] False False,
      Instruction 0x25 2 ''add A, {0}'' [DATA] False False,
      Instruction 0x30 3 ''jnb {0}, {1}'' [BIT, REL] False False,
      Instruction 0x32 1 ''reti'' [] True False,
      Instruction 0x33 1 ''rlc A'' [] False False,
      Instruction 0x34 2 ''addc A, #{0}'' [IMM] False False,
      Instruction 0x35 2 ''addc A, {0}'' [DATA] False False,
      Instruction 0x40 2 ''jc {0}'' [REL] False False,
      Instruction 0x42 2 ''orl {0}, A'' [DATA] False False,
      Instruction 0x43 3 ''orl {0}, #{1}'' [DATA, IMM] False False,
      Instruction 0x44 2 ''orl A, #{0}'' [IMM] False False,
      Instruction 0x45 2 ''orl A, {0}'' [DATA] False False,
      Instruction 0x50 2 ''jnc {0}'' [REL] False False,
      Instruction 0x52 2 ''anl {0}, A'' [DATA] False False,
      Instruction 0x53 3 ''anl {0}, #{1}'' [DATA, IMM] False False,
      Instruction 0x54 2 ''anl A, #{0}'' [IMM] False False,
      Instruction 0x55 2 ''anl A, {0}'' [DATA] False False,
      Instruction 0x60 2 ''jz {0}'' [REL] False False,
      Instruction 0x62 2 ''xrl {0}, A'' [DATA] False False,
      Instruction 0x63 3 ''xrl {0}, #{1}'' [DATA, IMM] False False,
      Instruction 0x64 2 ''xrl A, #{0}'' [IMM] False False,
      Instruction 0x65 2 ''xrl A, {0}'' [DATA] False False,
      Instruction 0x70 2 ''jnz {0}'' [REL] False False,
      Instruction 0x72 2 ''orl C, {0}'' [BIT] False False,
      Instruction 0x73 1 ''jmp @A + DPTR'' [] True False,
      Instruction 0x74 2 ''mov A, #{0}'' [IMM] False False,
      Instruction 0x75 3 ''mov {0}, #{1}'' [DATA, IMM] False False,
      Instruction 0x76 2 ''mov @R0, #{0}'' [IMM] False False,
      Instruction 0x77 2 ''mov @R1, #{0}'' [IMM] False False,
      Instruction 0x80 2 ''sjmp {0}'' [REL] True False,
      Instruction 0x82 2 ''anl C, {0}'' [BIT] False False,
      Instruction 0x83 1 ''movc A, @A + PC'' [] False False,
      Instruction 0x84 1 ''div AB'' [] False False,
      Instruction 0x85 3 ''mov {1}, {0}'' [DATA, DATA] False False,
      Instruction 0x86 2 ''mov {0}, @R0'' [DATA] False False,
      Instruction 0x87 2 ''mov {0}, @R1'' [DATA] False False,
      Instruction 0x90 3 ''mov DPTR, #{0}'' [LABEL] False True,
      Instruction 0x92 2 ''mov {0}, C'' [BIT] False False,
      Instruction 0x93 1 ''movc A, @A + DPTR'' [] False False,
      Instruction 0x94 2 ''subb A, #{0}'' [IMM] False False,
      Instruction 0x95 2 ''subb A, {0}'' [DATA] False False,
      Instruction 0xA0 2 ''orl C, /{0}'' [BIT] False False,
      Instruction 0xA2 2 ''mov C, {0}'' [BIT] False False,
      Instruction 0xA3 1 ''inc DPTR'' [] False False,
      Instruction 0xA4 1 ''mul AB'' [] False False,
      Instruction 0xA5 1 ''dec DPTR'' [] False False,
      Instruction 0xA6 2 ''mov @R0, {0}'' [DATA] False False,
      Instruction 0xA7 2 ''mov @R1, {0}'' [DATA] False False,
      Instruction 0xB0 2 ''anl C, /{0}'' [BIT] False False,
      Instruction 0xB2 2 ''cpl {0}'' [BIT] False False,
      Instruction 0xB3 1 ''cpl C'' [] False False,
      Instruction 0xB4 3 ''cjne A, #{0}, {1}'' [IMM, REL] False False,
      Instruction 0xB5 3 ''cjne A, {0}, {1}'' [DATA, REL] False False,
      Instruction 0xB6 3 ''cjne @R0, #{0}, {1}'' [IMM, REL] False False,
      Instruction 0xB7 3 ''cjne @R1, #{0}, {1}'' [IMM, REL] False False,
      Instruction 0xC0 2 ''push {0}'' [DATA] False False,
      Instruction 0xC2 2 ''clr {0}'' [BIT] False False,
      Instruction 0xC3 1 ''clr C'' [] False False,
      Instruction 0xC4 1 ''swap A'' [] False False,
      Instruction 0xC5 2 ''xch A, {0}'' [DATA] False False,
      Instruction 0xD0 2 ''pop {0}'' [DATA] False False,
      Instruction 0xD2 2 ''setb {0}'' [BIT] False False,
      Instruction 0xD3 1 ''setb C'' [] False False,
      Instruction 0xD4 1 ''da A'' [] False False,
      Instruction 0xD5 3 ''djnz {0}, {1}'' [DATA, REL] False False,
      Instruction 0xE0 1 ''movx A, @DPTR'' [] False False,
      Instruction 0xE2 1 ''movx A, @R0'' [] False False,
      Instruction 0xE3 1 ''movx A, @R1'' [] False False,
      Instruction 0xE4 1 ''clr A'' [] False False,
      Instruction 0xE5 2 ''mov A, {0}'' [DATA] False False,
      Instruction 0xF0 1 ''movx @DPTR, A'' [] False False,
      Instruction 0xF2 1 ''movx @R0, A'' [] False False,
      Instruction 0xF3 1 ''movx @R1, A'' [] False False,
      Instruction 0xF4 1 ''cpl A'' [] False False,
      Instruction 0xF5 2 ''mov {0}, A'' [DATA] False False]"

text \<open>Every call of \<^verbatim>\<open>__add\<close> that \<^verbatim>\<open>Instructions.__init__\<close> makes, in program order.\<close>

definition all_adds :: "Instruction list" where
  "all_adds = concat (map msb_adds msb_table) @ concat (map reg_adds [0..7])
                @ concat (map addr_adds [0..7]) @ single_adds"

text \<open>
  \<^verbatim>\<open>Instructions.__add\<close>: the dictionary is an association list in insertion order; the
  assertion raises on an opcode that is already a key.
\<close>

definition add :: "(int \<times> Instruction) list \<Rightarrow> Instruction \<Rightarrow> error + (int \<times> Instruction) list" where
  "add instructions instruction =
     (if map_of instructions (i_code instruction) \<noteq> None then Inl AssertionError
      else Inr (instructions @ [(i_code instruction, instruction)]))"

fun add_each :: "(int \<times> Instruction) list \<Rightarrow> Instruction list \<Rightarrow> error + (int \<times> Instruction) list" where
  "add_each instructions [] = Inr instructions"
| "add_each instructions (x # xs) =
     (case add instructions x of Inl e \<Rightarrow> Inl e | Inr instructions' \<Rightarrow> add_each instructions' xs)"

text \<open>\<^verbatim>\<open>Instructions.__init__\<close>: all the additions, then the completeness assertion.\<close>

definition Instructions_init :: "error + (int \<times> Instruction) list" where
  "Instructions_init =
     (case add_each [] all_adds of
        Inl e \<Rightarrow> Inl e
      | Inr instructions \<Rightarrow>
          if list_all (\<lambda>code. map_of instructions code \<noteq> None) [0..255] then Inr instructions
          else Inl AssertionError)"

text \<open>
  The object \<^verbatim>\<open>Instructions()\<close>: the dictionary the constructor leaves behind. The
  constructor takes no argument, so this is the only catalog a \<^verbatim>\<open>CodeAnalyzer\<close> can
  hold in its field \<^verbatim>\<open>instructions\<close>; the analyzer below refers to it directly.
\<close>

definition Instructions :: "(int \<times> Instruction) list" where
  "Instructions = (case Instructions_init of Inl e \<Rightarrow> [] | Inr instructions \<Rightarrow> instructions)"

subsection \<open>codeanalyzer.py: the operand decoder\<close>

datatype LabelType = JUMP | DPTR | ADDR'


text \<open>
  \<^verbatim>\<open>rom[i]\<close> on a \<^verbatim>\<open>bytes\<close> object: a negative index counts from the end, and an index
  outside \<open>[-len, len)\<close> raises \<^verbatim>\<open>IndexError\<close>.
\<close>

definition rom_get :: "8 word list \<Rightarrow> int \<Rightarrow> error + int" where
  "rom_get rom i =
     (let n = int (length rom)
      in if 0 \<le> i \<and> i < n then Inr (uint (rom ! nat i))
         else if - n \<le> i \<and> i < 0 then Inr (uint (rom ! nat (n + i)))
         else Inl IndexError)"

record InstrArgsAnalyzer =
  ia_rom :: "8 word list"
  ia_pc :: int
  ia_pc_rel :: int
  ia_offset :: int
  ia_pc_arg :: int

definition InstrArgsAnalyzer_init :: "8 word list \<Rightarrow> int \<Rightarrow> int \<Rightarrow> int \<Rightarrow> InstrArgsAnalyzer" where
  "InstrArgsAnalyzer_init rom pc pc_rel offset =
     \<lparr>ia_rom = rom, ia_pc = pc, ia_pc_rel = pc_rel, ia_offset = offset, ia_pc_arg = pc + 1\<rparr>"

text \<open>
  \<^verbatim>\<open>InstrArgsAnalyzer.next_arg\<close>. The result is \<open>Inl\<close> when a read of the ROM raises,
  \<open>Inr (None, _)\<close> when the method returns \<^verbatim>\<open>None\<close>, and \<open>Inr (Some (arg, val, hint), _)\<close>
  otherwise; the second component is the analyzer with its cursor \<^verbatim>\<open>pc_arg\<close> as the
  call leaves it.
\<close>

definition next_arg ::
  "InstrArgsAnalyzer \<Rightarrow> ArgType \<Rightarrow> error + ((ArgType \<times> int \<times> string) option \<times> InstrArgsAnalyzer)" where
  "next_arg self arg =
     (if ia_pc self \<ge> int (length (ia_rom self)) then Inr (None, self)
      else case rom_get (ia_rom self) (ia_pc_arg self) of
        Inl e \<Rightarrow> Inl e
      | Inr val \<Rightarrow>
          (let self = self\<lparr>ia_pc_arg := ia_pc_arg self + 1\<rparr>
           in if arg = LABEL then
                (if ia_pc_arg self \<ge> int (length (ia_rom self)) then Inr (None, self)
                 else case rom_get (ia_rom self) (ia_pc_arg self) of
                   Inl e \<Rightarrow> Inl e
                 | Inr low \<Rightarrow>
                     Inr (Some (LABEL, (push_bit 8 val OR low) - ia_offset self, []),
                          self\<lparr>ia_pc_arg := ia_pc_arg self + 1\<rparr>))
              else if arg = ADDR then
                (case rom_get (ia_rom self) (ia_pc self) of
                   Inl e \<Rightarrow> Inl e
                 | Inr opcode \<Rightarrow>
                     Inr (Some (LABEL,
                            (ia_pc_rel self AND 0xF800) OR val OR (push_bit 3 opcode AND 0x700),
                            []), self))
              else if arg = REL then
                (let val = (if val \<ge> 0x80 then val - 0x100 else val);
                     val = ia_pc_rel self + val
                 in if val < 0 then Inr (None, self) else Inr (Some (LABEL, val, []), self))
              else if arg = IMM then Inr (Some (IMM, val, binary_hint val), self)
              else Inr (Some (arg, val, []), self)))"

text \<open>
  The operand loop that both callers run (\<^verbatim>\<open>for iarg in instr.args: analyzed =
  analyzer.next_arg(iarg); if not analyzed: ...\<close>), without the caller's body: the decoded
  operands in order, or \<open>None\<close> from the first operand that does not decode.
\<close>

fun next_args ::
  "InstrArgsAnalyzer \<Rightarrow> ArgType list \<Rightarrow> error + ((ArgType \<times> int \<times> string) list option \<times> InstrArgsAnalyzer)" where
  "next_args analyzer [] = Inr (Some [], analyzer)"
| "next_args analyzer (iarg # rest) =
     (case next_arg analyzer iarg of
        Inl e \<Rightarrow> Inl e
      | Inr (None, analyzer') \<Rightarrow> Inr (None, analyzer')
      | Inr (Some analyzed, analyzer') \<Rightarrow>
          (case next_args analyzer' rest of
             Inl e \<Rightarrow> Inl e
           | Inr (None, analyzer'') \<Rightarrow> Inr (None, analyzer'')
           | Inr (Some others, analyzer'') \<Rightarrow> Inr (Some (analyzed # others), analyzer'')))"

text \<open>The number of ROM bytes an operand kind takes.\<close>

definition arg_bytes :: "ArgType \<Rightarrow> int" where
  "arg_bytes arg = (if arg = LABEL then 2 else 1)"

subsection \<open>codeanalyzer.py: the analyzer's state\<close>

text \<open>
  \<^verbatim>\<open>class Addresses\<close>: four scopes, each a dictionary from address to name. A scope is
  looked up by the string value of an \<open>ArgType\<close>; only \<^verbatim>\<open>DATA\<close>, \<^verbatim>\<open>BIT\<close> and
  \<^verbatim>\<open>LABEL\<close> name a scope.
\<close>

record Addresses =
  a_CODE :: "int \<rightharpoonup> string"
  a_DATA :: "int \<rightharpoonup> string"
  a_BIT :: "int \<rightharpoonup> string"
  a_LABEL :: "int \<rightharpoonup> string"

definition Addresses_scope :: "Addresses \<Rightarrow> ArgType \<Rightarrow> (int \<rightharpoonup> string) option" where
  "Addresses_scope addresses arg =
     (case arg of DATA \<Rightarrow> Some (a_DATA addresses) | BIT \<Rightarrow> Some (a_BIT addresses)
      | LABEL \<Rightarrow> Some (a_LABEL addresses) | _ \<Rightarrow> None)"

text \<open>
  \<^verbatim>\<open>class CodeAnalyzer\<close>. The label table is a dictionary whose insertion order the
  namer observes, so it is an association list; \<open>AList.update\<close> is the dictionary
  assignment (a new key goes to the end, an old key keeps its place).
\<close>

record CodeAnalyzer =
  ca_rom :: "8 word list"
  ca_addresses :: Addresses
  ca_offset :: int
  ca_all_is_code :: bool
  ca_labels :: "(int \<times> LabelType) list"
  ca_forwards :: "int \<rightharpoonup> int"
  ca_SFR_warnings :: "int set"
  ca_no_return_from :: "int set"

definition CodeAnalyzer_init ::
  "8 word list \<Rightarrow> Addresses \<Rightarrow> int \<Rightarrow> bool \<Rightarrow> int list \<Rightarrow> int list \<Rightarrow> CodeAnalyzer" where
  "CodeAnalyzer_init rom addresses offset all_is_code no_return_from indirect =
     \<lparr>ca_rom = rom, ca_addresses = addresses, ca_offset = offset, ca_all_is_code = all_is_code,
      ca_labels = fold (\<lambda>address labels. AList.update address ADDR' labels) indirect [],
      ca_forwards = Map.empty, ca_SFR_warnings = {},
      ca_no_return_from = set no_return_from\<rparr>"

subsection \<open>codeanalyzer.py: the scan\<close>

text \<open>
  The local set \<^verbatim>\<open>jumps\<close> is kept as the list of its members in the order they were
  added. The body of the operand loop of \<^verbatim>\<open>analyze_jumps\<close>, for one decoded operand,
  on the analyzer, the set and the local flag \<^verbatim>\<open>jump_out\<close>:
\<close>

definition set_add :: "int list \<Rightarrow> int \<Rightarrow> int list" where
  "set_add jumps val = (if val \<in> set jumps then jumps else jumps @ [val])"

definition classify ::
  "int \<Rightarrow> int \<Rightarrow> Instruction \<Rightarrow> ArgType \<Rightarrow> int \<Rightarrow> CodeAnalyzer \<times> int list \<times> bool
     \<Rightarrow> CodeAnalyzer \<times> int list \<times> bool" where
  "classify start pc instr arg val = (\<lambda>(self, jumps, jump_out).
     if arg = LABEL \<and> val \<noteq> pc then
       (let (ltype, self, jump_out) =
              (if i_no_jump instr then (DPTR, self, jump_out)
               else (JUMP,
                     (if pc = start \<and> i_jump_out instr
                      then self\<lparr>ca_forwards := (ca_forwards self)(pc \<mapsto> val)\<rparr> else self),
                     (if val \<in> ca_no_return_from self then True else jump_out)))
        in if map_of (ca_labels self) val = None then
             (self\<lparr>ca_labels := AList.update val ltype (ca_labels self)\<rparr>,
              (if ltype = JUMP then set_add jumps val else jumps), jump_out)
           else (self, jumps, jump_out))
     else (self, jumps, jump_out))"

fun analyze_args ::
  "int \<Rightarrow> int \<Rightarrow> Instruction \<Rightarrow> InstrArgsAnalyzer \<Rightarrow> ArgType list
     \<Rightarrow> CodeAnalyzer \<times> int list \<times> bool \<Rightarrow> error + (CodeAnalyzer \<times> int list \<times> bool)" where
  "analyze_args start pc instr analyzer [] st = Inr st"
| "analyze_args start pc instr analyzer (iarg # rest) st =
     (case next_arg analyzer iarg of
        Inl e \<Rightarrow> Inl e
      | Inr (None, analyzer') \<Rightarrow> Inr st
      | Inr (Some (arg, val, hint), analyzer') \<Rightarrow>
          analyze_args start pc instr analyzer' rest (classify start pc instr arg val st))"

text \<open>One round of the \<^verbatim>\<open>while\<close> loop, up to the advance of \<^verbatim>\<open>pc\<close>.\<close>

definition analyze_instr ::
  "int \<Rightarrow> bool \<Rightarrow> int \<Rightarrow> Instruction \<Rightarrow> CodeAnalyzer \<times> int list
     \<Rightarrow> error + (CodeAnalyzer \<times> int list \<times> bool)" where
  "analyze_instr start force pc instr = (\<lambda>(self, jumps).
     (let jump_out = (i_jump_out instr \<and> \<not> force)
      in if i_args instr \<noteq> [] then
           analyze_args start pc instr
             (InstrArgsAnalyzer_init (ca_rom self) pc (pc + i_length instr) (ca_offset self))
             (i_args instr) (self, jumps, jump_out)
         else Inr (self, jumps, jump_out)))"

subsection \<open>codeanalyzer.py: analyze\_jumps\<close>

text \<open>
  The \<^verbatim>\<open>while\<close> loop of \<^verbatim>\<open>analyze_jumps\<close>; it returns the final \<^verbatim>\<open>pc\<close>, the analyzer
  and the set \<^verbatim>\<open>jumps\<close>. The loop ends because every descriptor of the catalog has a
  positive length; the termination proof comes after the facts about the catalog.
\<close>

function analyze_loop ::
  "int \<Rightarrow> bool \<Rightarrow> CodeAnalyzer \<Rightarrow> int list \<Rightarrow> int \<Rightarrow> error + (int \<times> CodeAnalyzer \<times> int list)" where
  "analyze_loop start force self jumps pc =
     (if pc < int (length (ca_rom self)) then
        (case rom_get (ca_rom self) pc of
           Inl e \<Rightarrow> Inl e
         | Inr code \<Rightarrow>
             (case map_of Instructions code of
                None \<Rightarrow> Inr (pc, self, jumps)
              | Some instr \<Rightarrow>
                  (case analyze_instr start force pc instr (self, jumps) of
                     Inl e \<Rightarrow> Inl e
                   | Inr (self', jumps', jump_out) \<Rightarrow>
                       if jump_out then Inr (pc + i_length instr, self', jumps')
                       else analyze_loop start force self' jumps' (pc + i_length instr))))
      else Inr (pc, self, jumps))"
  by pat_completeness auto

text \<open>
  \<^verbatim>\<open>entry_queue += jumps\<close> appends the members of a Python set in the set's iteration
  order, which the language leaves to the implementation: a hash table is walked by
  ascending slot, and the slot of a member depends on the members and on the order they
  were added in. The parameter \<open>slot\<close> gives, for a history of additions, the slot of each
  member; the members come out sorted by it.
\<close>

definition set_iter :: "(int list \<Rightarrow> int \<Rightarrow> nat) \<Rightarrow> int list \<Rightarrow> int list" where
  "set_iter slot jumps = sort_key (slot jumps) jumps"

text \<open>
  CPython's layout for a set of at most four non-negative machine-size integers that
  differ modulo 8: a table of eight slots, the member \<open>v\<close> in slot \<open>v mod 8\<close>.
\<close>

definition small_set_slot :: "int list \<Rightarrow> int \<Rightarrow> nat" where
  "small_set_slot history v = nat (v mod 8)"

text \<open>\<^verbatim>\<open>CodeAnalyzer.analyze_jumps\<close>: the final \<^verbatim>\<open>pc\<close>, the analyzer and the caller's queue.\<close>

definition analyze_jumps ::
  "(int list \<Rightarrow> int \<Rightarrow> nat) \<Rightarrow> CodeAnalyzer \<Rightarrow> int \<Rightarrow> int list \<Rightarrow> bool
     \<Rightarrow> error + (int \<times> CodeAnalyzer \<times> int list)" where
  "analyze_jumps slot self start entry_queue force =
     (case analyze_loop start force self [] start of
        Inl e \<Rightarrow> Inl e
      | Inr (pc, self', jumps) \<Rightarrow> Inr (pc, self', entry_queue @ set_iter slot jumps))"

subsection \<open>codeanalyzer.py: the renderer of one instruction\<close>

text \<open>
  \<^verbatim>\<open>template.format(*args)\<close> for the templates of the catalog: a field is a brace, one
  digit and a brace; any other use of a brace, which no template of the catalog has,
  is a \<^verbatim>\<open>ValueError\<close>, and a field beyond the arguments an \<^verbatim>\<open>IndexError\<close>.
\<close>

fun py_format :: "string \<Rightarrow> string list \<Rightarrow> error + string" where
  "py_format [] args = Inr []"
| "py_format (c # cs) args =
     (if c = CHR ''{'' then
        (case cs of
           d # e # rest \<Rightarrow>
             if isdigit d \<and> e = CHR ''}'' then
               (let k = of_char d - (48 :: nat)
                in if k < length args then
                     (case py_format rest args of Inl err \<Rightarrow> Inl err | Inr s \<Rightarrow> Inr (args ! k @ s))
                   else Inl IndexError)
             else Inl ValueError
         | _ \<Rightarrow> Inl ValueError)
      else if c = CHR ''}'' then Inl ValueError
      else (case py_format cs args of Inl err \<Rightarrow> Inl err | Inr s \<Rightarrow> Inr (c # s)))"

text \<open>
  The body of the operand loop of \<^verbatim>\<open>__disassemble_instruction\<close> for one decoded operand,
  on the analyzer, the list \<^verbatim>\<open>args\<close>, the string \<^verbatim>\<open>hints\<close> and the lines written to the
  standard error stream.
\<close>

definition render_arg ::
  "int \<Rightarrow> ArgType \<Rightarrow> int \<Rightarrow> string \<Rightarrow> CodeAnalyzer \<times> string list \<times> string \<times> string list
     \<Rightarrow> CodeAnalyzer \<times> string list \<times> string \<times> string list" where
  "render_arg pc arg val hint = (\<lambda>(self, args, hints, err).
     (let hints = hints @ hint;
          (arg, val, suffix) =
            (if arg = BIT \<and> a_BIT (ca_addresses self) val = None
             then (DATA, (if val \<ge> 0x80 then val AND 0xF8 else 0x20 OR drop_bit 3 val),
                   ''.'' @ fmt_d 0 (val AND 7))
             else (arg, val, []));
          (self, err) =
            (if arg = DATA \<and> val \<ge> 0x80 \<and> val \<notin> ca_SFR_warnings self
                  \<and> a_DATA (ca_addresses self) val = None
             then (self\<lparr>ca_SFR_warnings := insert val (ca_SFR_warnings self)\<rparr>,
                   err @ [''warning: unknown SFR '' @ int2hex val])
             else (self, err));
          valstr =
            (if arg = LABEL \<and> val = pc then ''$''
             else case Addresses_scope (ca_addresses self) arg of
                    None \<Rightarrow> int2hex val
                  | Some scope \<Rightarrow> (case scope val of None \<Rightarrow> int2hex val | Some name \<Rightarrow> name))
      in (self, args @ [valstr @ suffix], hints, err)))"

text \<open>The operand loop: \<open>False\<close> in the result when it left through \<^verbatim>\<open>return None\<close>.\<close>

fun disassemble_args ::
  "int \<Rightarrow> InstrArgsAnalyzer \<Rightarrow> ArgType list \<Rightarrow> CodeAnalyzer \<times> string list \<times> string \<times> string list
     \<Rightarrow> error + (bool \<times> CodeAnalyzer \<times> string list \<times> string \<times> string list)" where
  "disassemble_args pc analyzer [] st = Inr (True, st)"
| "disassemble_args pc analyzer (iarg # rest) st =
     (case next_arg analyzer iarg of
        Inl e \<Rightarrow> Inl e
      | Inr (None, analyzer') \<Rightarrow> Inr (False, st)
      | Inr (Some (arg, val, hint), analyzer') \<Rightarrow>
          disassemble_args pc analyzer' rest (render_arg pc arg val hint st))"

text \<open>
  \<^verbatim>\<open>CodeAnalyzer.__disassemble_instruction\<close>: the method's result, the analyzer (its set of
  warnings may have grown) and the lines written to the standard error stream.
\<close>

definition disassemble_instruction ::
  "CodeAnalyzer \<Rightarrow> int \<Rightarrow> error + ((string \<times> int) option \<times> CodeAnalyzer \<times> string list)" where
  "disassemble_instruction self pc =
     (if pc \<ge> int (length (ca_rom self)) then Inr (None, self, [])
      else case rom_get (ca_rom self) pc of
        Inl e \<Rightarrow> Inl e
      | Inr code \<Rightarrow>
          (case map_of Instructions code of
             None \<Rightarrow> Inr (None, self, [])
           | Some instr \<Rightarrow>
               (let finish = (\<lambda>result self err.
                      Inr (Some ([CHR 0x09] @ (if i_jump_out instr then result @ [CHR 0x0A] else result),
                                 i_length instr), self, err))
                in if i_args instr \<noteq> [] then
                     (case disassemble_args pc
                             (InstrArgsAnalyzer_init (ca_rom self) pc (pc + i_length instr) (ca_offset self))
                             (i_args instr) (self, [], [], []) of
                        Inl e \<Rightarrow> Inl e
                      | Inr (False, self', args, hints, err) \<Rightarrow> Inr (None, self', err)
                      | Inr (True, self', args, hints, err) \<Rightarrow>
                          if length args \<noteq> length (i_args instr) then Inr (None, self', err)
                          else (case py_format (i_mnemonic instr) args of
                                  Inl e \<Rightarrow> Inl e
                                | Inr result \<Rightarrow>
                                    finish (if hints \<noteq> [] then result @ [CHR 0x09] @ ''; '' @ hints
                                            else result) self' err))
                   else finish (i_mnemonic instr) self [])))"

text \<open>\<^verbatim>\<open>maybe_print_org_label\<close>: the result and the lines printed.\<close>

definition maybe_print_org_label :: "CodeAnalyzer \<Rightarrow> int \<Rightarrow> bool \<Rightarrow> bool \<Rightarrow> bool \<times> string list" where
  "maybe_print_org_label self pc force_org just_started =
     (let addresses = ca_addresses self;
          (org, out) =
            (case a_CODE addresses pc of
               Some name \<Rightarrow> (True, [[CHR 0x0A] @ ''org'' @ [CHR 0x09] @ name])
             | None \<Rightarrow>
                 if force_org then (True, [[CHR 0x0A] @ ''org'' @ [CHR 0x09] @ int2hex pc])
                 else if just_started \<and> a_LABEL addresses pc = None
                 then (False, ['';org'' @ [CHR 0x09] @ int2hex pc])
                 else (False, []))
      in (org, out @ (case a_LABEL addresses pc of Some name \<Rightarrow> [name @ '':''] | None \<Rightarrow> [])))"

text \<open>
  One round of the loop of \<^verbatim>\<open>disassemble_code_block\<close>: the new \<^verbatim>\<open>force_org\<close>, the
  lines printed, the length to advance by, the analyzer and the lines of the standard
  error stream.
\<close>

definition disassemble_step ::
  "CodeAnalyzer \<Rightarrow> int \<Rightarrow> int \<Rightarrow> bool
     \<Rightarrow> error + (bool \<times> string list \<times> int \<times> CodeAnalyzer \<times> string list)" where
  "disassemble_step self start pc force_org =
     (let (org, printed) = maybe_print_org_label self pc force_org (pc = start);
          force_org = (if org then False else force_org)
      in case disassemble_instruction self pc of
           Inl e \<Rightarrow> Inl e
         | Inr (Some (result, len), self', err) \<Rightarrow>
             Inr (force_org, printed @ [result], len, self', err)
         | Inr (None, self', err) \<Rightarrow>
             (case rom_get (ca_rom self') pc of
                Inl e \<Rightarrow> Inl e
              | Inr byte \<Rightarrow> Inr (force_org, printed @ [binary_byte byte pc], 1, self', err)))"

subsection \<open>codeanalyzer.py: disassemble\_code\_block\<close>

text \<open>
  The loop of \<^verbatim>\<open>disassemble_code_block\<close>: the final \<^verbatim>\<open>pc\<close>, the analyzer, the lines
  printed and the lines of the standard error stream. Its termination is proved with
  that of the scan.
\<close>

function disassemble_loop ::
  "int \<Rightarrow> int \<Rightarrow> CodeAnalyzer \<Rightarrow> bool \<Rightarrow> string list \<Rightarrow> string list \<Rightarrow> int
     \<Rightarrow> error + (int \<times> CodeAnalyzer \<times> string list \<times> string list)" where
  "disassemble_loop start end' self force_org out err pc =
     (if pc < end' then
        (case disassemble_step self start pc force_org of
           Inl e \<Rightarrow> Inl e
         | Inr (force_org', printed, len, self', err') \<Rightarrow>
             disassemble_loop start end' self' force_org' (out @ printed) (err @ err') (pc + len))
      else Inr (pc, self, out, err))"
  by pat_completeness auto

definition disassemble_code_block ::
  "CodeAnalyzer \<Rightarrow> int \<Rightarrow> int \<Rightarrow> bool \<Rightarrow> error + (int \<times> CodeAnalyzer \<times> string list \<times> string list)" where
  "disassemble_code_block self start end' force_org = disassemble_loop start end' self force_org [] [] start"

subsection \<open>codeanalyzer.py: the namer\<close>



section \<open>The driver's worklist loop\<close>

text \<open>
  Modelled from the spec: the driver that owns the entry queue is not among the
  sources. The spec says that the caller seeds the queue with known code-segment
  starts, repeatedly pops one address and calls the scan, merging the results, until
  the queue is empty. The queue is popped at its head; the scan is called without
  \<^verbatim>\<open>force\<close>. Besides the analyzer the function returns the addresses it has popped, in
  order: a trace for the theorems, not a variable of the driver. That the loop ends
  for every ROM, analyzer and queue is the termination proof in the section on the
  worklist.
\<close>

function worklist ::
  "(int list \<Rightarrow> int \<Rightarrow> nat) \<Rightarrow> CodeAnalyzer \<Rightarrow> int list \<Rightarrow> int list
     \<Rightarrow> error + (CodeAnalyzer \<times> int list)" where
  "worklist slot self scanned [] = Inr (self, scanned)"
| "worklist slot self scanned (entry # entry_queue) =
     (case analyze_jumps slot self entry entry_queue False of
        Inl e \<Rightarrow> Inl e
      | Inr (pc, self', entry_queue') \<Rightarrow> worklist slot self' (scanned @ [entry]) entry_queue')"
  by pat_completeness auto

text \<open>
  Modelled from the spec: the first \<open>n\<close> rounds of that loop (fewer when the queue runs
  empty before), with the queue that is left. It gives the states a run passes through,
  also those before a scan that raises.
\<close>

fun worklist_steps ::
  "(int list \<Rightarrow> int \<Rightarrow> nat) \<Rightarrow> nat \<Rightarrow> CodeAnalyzer \<Rightarrow> int list \<Rightarrow> int list
     \<Rightarrow> error + (CodeAnalyzer \<times> int list \<times> int list)" where
  "worklist_steps slot 0 self scanned entry_queue = Inr (self, scanned, entry_queue)"
| "worklist_steps slot (Suc n) self scanned [] = Inr (self, scanned, [])"
| "worklist_steps slot (Suc n) self scanned (entry # entry_queue) =
     (case analyze_jumps slot self entry entry_queue False of
        Inl e \<Rightarrow> Inl e
      | Inr (pc, self', entry_queue') \<Rightarrow> worklist_steps slot n self' (scanned @ [entry]) entry_queue')"

section \<open>Definitions for the statements\<close>

text \<open>
  Any sequence of calls of \<^verbatim>\<open>analyze_jumps\<close> on one analyzer, each call with its start
  address and its \<^verbatim>\<open>force\<close> flag, the caller's queue handed from call to call.
\<close>

fun analyze_jumps_calls ::
  "(int list \<Rightarrow> int \<Rightarrow> nat) \<Rightarrow> CodeAnalyzer \<Rightarrow> int list \<Rightarrow> (int \<times> bool) list
     \<Rightarrow> error + (CodeAnalyzer \<times> int list)" where
  "analyze_jumps_calls slot self entry_queue [] = Inr (self, entry_queue)"
| "analyze_jumps_calls slot self entry_queue ((start, force) # calls) =
     (case analyze_jumps slot self start entry_queue force of
        Inl e \<Rightarrow> Inl e
      | Inr (pc, self', entry_queue') \<Rightarrow> analyze_jumps_calls slot self' entry_queue' calls)"

text \<open>A symbol table without names, for the examples.\<close>

definition no_symbols :: Addresses where
  "no_symbols = \<lparr>a_CODE = Map.empty, a_DATA = Map.empty, a_BIT = Map.empty, a_LABEL = Map.empty\<rparr>"


text \<open>
  What a scan that started from the analyzer \<open>self0\<close> keeps true of the analyzer and
  of its set of new jumps: entries of the label table stay as they are, and the set
  holds, each once, the addresses that have become \<^verbatim>\<open>JUMP\<close> entries since \<open>self0\<close>.
\<close>

definition scan_inv :: "CodeAnalyzer \<Rightarrow> CodeAnalyzer \<Rightarrow> int list \<Rightarrow> bool" where
  "scan_inv self0 self jumps =
     ((\<forall>a t. map_of (ca_labels self0) a = Some t \<longrightarrow> map_of (ca_labels self) a = Some t)
      \<and> distinct jumps
      \<and> set jumps = {a. map_of (ca_labels self) a = Some JUMP \<and> map_of (ca_labels self0) a = None})"

text \<open>
  The values that the operands of the instruction at \<open>pc\<close> resolve to as \<^verbatim>\<open>LABEL\<close>, in
  operand order.
\<close>

fun arg_targets :: "InstrArgsAnalyzer \<Rightarrow> ArgType list \<Rightarrow> int list" where
  "arg_targets analyzer [] = []"
| "arg_targets analyzer (iarg # rest) =
     (case next_arg analyzer iarg of
        Inl e \<Rightarrow> []
      | Inr (None, analyzer') \<Rightarrow> []
      | Inr (Some (arg, val, hint), analyzer') \<Rightarrow>
          (if arg = LABEL then [val] else []) @ arg_targets analyzer' rest)"

definition targets_at :: "8 word list \<Rightarrow> int \<Rightarrow> int \<Rightarrow> int list" where
  "targets_at rom offset pc =
     (case rom_get rom pc of
        Inl e \<Rightarrow> []
      | Inr code \<Rightarrow>
          (case map_of Instructions code of
             None \<Rightarrow> []
           | Some instr \<Rightarrow>
               arg_targets (InstrArgsAnalyzer_init rom pc (pc + i_length instr) offset) (i_args instr)))"

text \<open>
  The same values without the address \<open>pc\<close> itself, and the set of them over the
  addresses from \<open>lo\<close> on at which the ROM can be read (negative indices included);
  \<open>all_targets\<close> is that set over every readable address.
\<close>

definition other_targets_at :: "8 word list \<Rightarrow> int \<Rightarrow> int \<Rightarrow> int list" where
  "other_targets_at rom offset pc = filter (\<lambda>v. v \<noteq> pc) (targets_at rom offset pc)"

definition targets_from :: "8 word list \<Rightarrow> int \<Rightarrow> int \<Rightarrow> int set" where
  "targets_from rom offset lo =
     (\<Union>pc \<in> {max lo (- int (length rom)) ..< int (length rom)}. set (other_targets_at rom offset pc))"

definition all_targets :: "8 word list \<Rightarrow> int \<Rightarrow> int set" where
  "all_targets rom offset = targets_from rom offset (- int (length rom))"

text \<open>The operand kinds that \<^verbatim>\<open>next_arg\<close> resolves to \<^verbatim>\<open>LABEL\<close>.\<close>

definition label_kind :: "ArgType \<Rightarrow> bool" where
  "label_kind a = (a = LABEL \<or> a = REL \<or> a = ADDR)"

text \<open>The addresses that have an entry in the label table.\<close>

definition keys :: "CodeAnalyzer \<Rightarrow> int set" where
  "keys self = fst ` set (ca_labels self)"

text \<open>What the loop keeps true, from the analyzer \<open>self0\<close> and the seeds it started with.\<close>

definition worklist_inv ::
  "CodeAnalyzer \<Rightarrow> int list \<Rightarrow> CodeAnalyzer \<Rightarrow> int list \<Rightarrow> int list \<Rightarrow> bool" where
  "worklist_inv self0 seeds self scanned entry_queue =
     (ca_rom self = ca_rom self0 \<and> ca_offset self = ca_offset self0
      \<and> keys self0 \<subseteq> keys self
      \<and> keys self \<subseteq> keys self0
            \<union> (\<Union>s \<in> set scanned. targets_from (ca_rom self0) (ca_offset self0) s)
      \<and> (\<forall>a t. map_of (ca_labels self0) a = Some t \<longrightarrow> map_of (ca_labels self) a = Some t)
      \<and> (\<exists>discovered. scanned @ entry_queue = seeds @ discovered \<and> distinct discovered
            \<and> set discovered
                = {a. map_of (ca_labels self) a = Some JUMP \<and> map_of (ca_labels self0) a = None}))"

section \<open>Termination of the loops of the scan and of the renderer\<close>

subsection \<open>Facts about the catalog\<close>

lemma all_adds_distinct: "distinct (map i_code all_adds)"
  by code_simp

lemma all_adds_length: "length all_adds = 256"
  by code_simp

lemma all_adds_shape:
  "list_all (\<lambda>i. 0 \<le> i_code i \<and> i_code i < 256
                \<and> i_length i = 1 + sum_list (map arg_bytes (i_args i))
                \<and> list_all (\<lambda>a. a \<noteq> LABEL \<and> a \<noteq> REL \<and> a \<noteq> ADDR) (butlast (i_args i))) all_adds"
  by code_simp

lemma add_each_distinct:
  "distinct (map fst ins @ map i_code xs) \<Longrightarrow>
     add_each ins xs = Inr (ins @ map (\<lambda>i. (i_code i, i)) xs)"
proof (induction xs arbitrary: ins)
  case Nil
  then show ?case by simp
next
  case (Cons x xs)
  from Cons.prems have fresh: "map_of ins (i_code x) = None"
    by (simp add: map_of_eq_None_iff)
  from Cons.prems have "distinct (map fst (ins @ [(i_code x, x)]) @ map i_code xs)"
    by auto
  from Cons.IH [OF this] fresh show ?case
    by (simp add: add_def)
qed

lemma all_adds_codes: "set (map i_code all_adds) = {0..255}"
proof -
  have sub: "set (map i_code all_adds) \<subseteq> {0..255}"
    using all_adds_shape by (auto simp: list_all_iff)
  have "card (set (map i_code all_adds)) = 256"
    using distinct_card [OF all_adds_distinct] all_adds_length by simp
  then have "card (set (map i_code all_adds)) = card {0..255::int}"
    by simp
  with sub show ?thesis
    by (intro card_subset_eq) auto
qed

lemma Instructions_init_eq: "Instructions_init = Inr (map (\<lambda>i. (i_code i, i)) all_adds)"
proof -
  have a: "add_each [] all_adds = Inr (map (\<lambda>i. (i_code i, i)) all_adds)"
    using add_each_distinct [of "[]" all_adds] all_adds_distinct by simp
  have "map_of (map (\<lambda>i. (i_code i, i)) all_adds) c \<noteq> None" if "c \<in> {0..255}" for c
  proof -
    from that all_adds_codes have "c \<in> fst ` set (map (\<lambda>i. (i_code i, i)) all_adds)"
      by (force simp: image_iff)
    then show ?thesis by (simp add: map_of_eq_None_iff)
  qed
  then have "list_all (\<lambda>code. map_of (map (\<lambda>i. (i_code i, i)) all_adds) code \<noteq> None) [0..255]"
    by (simp add: list_all_iff)
  with a show ?thesis
    by (simp add: Instructions_init_def)
qed

lemma Instructions_eq: "Instructions = map (\<lambda>i. (i_code i, i)) all_adds"
  by (simp add: Instructions_def Instructions_init_eq)

lemma Instructions_SomeD:
  assumes "map_of Instructions c = Some instr"
  shows "instr \<in> set all_adds" and "i_code instr = c"
proof -
  from assms have "(c, instr) \<in> set (map (\<lambda>i. (i_code i, i)) all_adds)"
    unfolding Instructions_eq by (rule map_of_SomeD)
  then show "instr \<in> set all_adds" and "i_code instr = c"
    by auto
qed

lemma Instructions_total:
  assumes "0 \<le> c" and "c < 256"
  shows "\<exists>instr. map_of Instructions c = Some instr"
proof -
  from assms all_adds_codes have "c \<in> fst ` set Instructions"
    by (force simp: Instructions_eq image_iff)
  then have "map_of Instructions c \<noteq> None"
    by (simp add: map_of_eq_None_iff)
  then show ?thesis by auto
qed

lemma Instructions_byte: "\<exists>instr. map_of Instructions (uint (b :: 8 word)) = Some instr"
proof -
  have "uint b < 2 ^ 8"
    using uint_bounded [of b] by simp
  then show ?thesis
    by (intro Instructions_total) simp_all
qed

lemma Instructions_length:
  assumes "map_of Instructions c = Some instr"
  shows "i_length instr = 1 + sum_list (map arg_bytes (i_args instr))"
  using Instructions_SomeD(1) [OF assms] all_adds_shape by (simp add: list_all_iff)

lemma arg_bytes_sum_nonneg: "0 \<le> sum_list (map arg_bytes xs)"
  by (induction xs) (simp_all add: arg_bytes_def)

lemma Instructions_length_pos:
  assumes "map_of Instructions c = Some instr"
  shows "1 \<le> i_length instr"
  using Instructions_length [OF assms] arg_bytes_sum_nonneg [of "i_args instr"] by simp

subsection \<open>The scan leaves the ROM and the configuration alone\<close>

lemma classify_config:
  assumes "classify start pc instr arg val st = st'"
  shows "ca_rom (fst st') = ca_rom (fst st)"
    and "ca_offset (fst st') = ca_offset (fst st)"
    and "ca_no_return_from (fst st') = ca_no_return_from (fst st)"
  using assms by (auto simp: classify_def Let_def split: prod.splits if_splits)

lemma analyze_args_config:
  assumes "analyze_args start pc instr analyzer xs st = Inr st'"
  shows "ca_rom (fst st') = ca_rom (fst st) \<and> ca_offset (fst st') = ca_offset (fst st)
           \<and> ca_no_return_from (fst st') = ca_no_return_from (fst st)"
  using assms
proof (induction xs arbitrary: analyzer st)
  case Nil
  then show ?case by simp
next
  case (Cons iarg rest)
  show ?case
  proof (cases "next_arg analyzer iarg")
    case (Inl e)
    with Cons.prems show ?thesis by simp
  next
    case (Inr r)
    obtain res analyzer' where r: "r = (res, analyzer')" by (cases r)
    show ?thesis
    proof (cases res)
      case None
      with Cons.prems Inr r show ?thesis by simp
    next
      case (Some t)
      obtain arg val hint where t: "t = (arg, val, hint)" by (cases t)
      from Cons.prems Inr r Some t
      have "analyze_args start pc instr analyzer' rest (classify start pc instr arg val st) = Inr st'"
        by simp
      from Cons.IH [OF this] classify_config [OF refl, of start pc instr arg val st]
      show ?thesis by simp
    qed
  qed
qed

lemma analyze_instr_config:
  assumes "analyze_instr start force pc instr (self, jumps) = Inr (self', jumps', jump_out)"
  shows "ca_rom self' = ca_rom self" and "ca_offset self' = ca_offset self"
    and "ca_no_return_from self' = ca_no_return_from self"
  using assms analyze_args_config [of start pc instr _ "i_args instr" "(self, jumps, _)" "(self', jumps', jump_out)"]
  by (auto simp: analyze_instr_def Let_def split: if_splits)

termination analyze_loop
proof (relation "measure (\<lambda>(start, force, self, jumps, pc). nat (int (length (ca_rom self)) - pc))")
  show "wf (measure (\<lambda>(start, force, self, jumps, pc). nat (int (length (ca_rom self)) - pc)))"
    by simp
next
  fix start :: int and force :: bool and self :: CodeAnalyzer and jumps :: "int list" and pc :: int
    and code :: int and instr :: Instruction and x :: "CodeAnalyzer \<times> int list \<times> bool"
    and self' :: CodeAnalyzer and y :: "int list \<times> bool" and jumps' :: "int list" and jump_out :: bool
  assume lt: "pc < int (length (ca_rom self))"
    and "rom_get (ca_rom self) pc = Inr code"
    and ins: "map_of Instructions code = Some instr"
    and an: "analyze_instr start force pc instr (self, jumps) = Inr x"
    and x: "(self', y) = x" "(jumps', jump_out) = y"
    and "\<not> jump_out"
  from an x have "analyze_instr start force pc instr (self, jumps) = Inr (self', jumps', jump_out)"
    by auto
  then have "ca_rom self' = ca_rom self"
    by (rule analyze_instr_config)
  with lt Instructions_length_pos [OF ins]
  show "((start, force, self', jumps', pc + i_length instr), (start, force, self, jumps, pc))
          \<in> measure (\<lambda>(start, force, self, jumps, pc). nat (int (length (ca_rom self)) - pc))"
    by simp
qed

text \<open>The catalog is evaluated from the list of additions.\<close>

declare Instructions_eq [code]

lemma disassemble_instruction_length:
  assumes "disassemble_instruction self pc = Inr (Some (result, len), self', err)"
  shows "1 \<le> len"
proof -
  from assms obtain code instr where "map_of Instructions code = Some instr" and "len = i_length instr"
    by (auto simp: disassemble_instruction_def Let_def
          split: if_splits sum.splits option.splits prod.splits bool.splits)
  then show ?thesis
    using Instructions_length_pos by simp
qed

lemma disassemble_step_length:
  assumes "disassemble_step self start pc force_org = Inr (force_org', printed, len, self', err)"
  shows "1 \<le> len"
  using assms disassemble_instruction_length
  by (auto simp: disassemble_step_def Let_def split: prod.splits sum.splits option.splits)

termination disassemble_loop
  by (relation "measure (\<lambda>(start, end', self, force_org, out, err, pc). nat (end' - pc))")
     (use disassemble_step_length in \<open>auto, force\<close>)

section \<open>The catalog is total and free of duplicates\<close>

text \<open>
  C4. The constructor of the catalog raises no assertion: it returns the dictionary
  \<open>Instructions\<close>, which has 256 entries with pairwise different keys, and every opcode
  from 0 to 255 (so every byte of a ROM) is the key of one descriptor, whose own
  \<^verbatim>\<open>code\<close> is that opcode.
\<close>

theorem Instructions_init_complete:
  "Instructions_init = Inr Instructions
     \<and> length Instructions = 256
     \<and> distinct (map fst Instructions)
     \<and> (\<forall>code. 0 \<le> code \<and> code < 256 \<longrightarrow>
           (\<exists>instr. map_of Instructions code = Some instr \<and> i_code instr = code))
     \<and> (\<forall>b :: 8 word. map_of Instructions (uint b) \<noteq> None)"
proof -
  have init: "Instructions_init = Inr Instructions"
    by (simp add: Instructions_def Instructions_init_eq)
  have len: "length Instructions = 256"
    by (simp add: Instructions_eq all_adds_length)
  have dist: "distinct (map fst Instructions)"
    using all_adds_distinct by (simp add: Instructions_eq comp_def)
  have total: "\<exists>instr. map_of Instructions code = Some instr \<and> i_code instr = code"
    if "0 \<le> code \<and> code < 256" for code
  proof -
    from that obtain instr where "map_of Instructions code = Some instr"
      using Instructions_total by blast
    then show ?thesis
      using Instructions_SomeD(2) by blast
  qed
  have bytes: "map_of Instructions (uint b) \<noteq> None" for b :: "8 word"
    using Instructions_byte [of b] by auto
  from init len dist total bytes show ?thesis
    by blast
qed

theorem Instructions_init_complete_witness:
  "\<exists>instr. Instructions_init = Inr Instructions
      \<and> map_of Instructions 0x80 = Some instr \<and> i_code instr = 0x80"
proof -
  have "(0::int) \<le> 0x80 \<and> (0x80::int) < 256"
    by simp
  with Instructions_init_complete show ?thesis
    by blast
qed

section \<open>The operand decoder\<close>

lemma rom_get_Inr_range:
  assumes "rom_get rom i = Inr b"
  shows "- int (length rom) \<le> i" and "i < int (length rom)"
  using assms by (auto simp: rom_get_def Let_def split: if_splits)

text \<open>
  C5. When the opcode byte and the byte after it can be read, decoding a ShortPageLabel
  operand (\<^verbatim>\<open>ADDR\<close>) takes exactly one byte (the cursor moves from \<open>pc + 1\<close> to
  \<open>pc + 2\<close>) and yields the kind \<^verbatim>\<open>LABEL\<close> with the value
  \<open>(pcNext AND 0xF800) OR rawByte OR ((opcodeByte << 3) AND 0x700)\<close>.
\<close>

theorem next_arg_ADDR:
  assumes "rom_get rom pc = Inr opcodeByte"
    and "rom_get rom (pc + 1) = Inr rawByte"
  shows "next_arg (InstrArgsAnalyzer_init rom pc pcNext bias) ADDR =
           Inr (Some (LABEL, (pcNext AND 0xF800) OR rawByte OR (push_bit 3 opcodeByte AND 0x700), []),
                (InstrArgsAnalyzer_init rom pc pcNext bias)\<lparr>ia_pc_arg := pc + 2\<rparr>)"
  using assms rom_get_Inr_range(2) [OF assms(1)]
  by (simp add: next_arg_def InstrArgsAnalyzer_init_def)

theorem next_arg_ADDR_witness:
  "rom_get (replicate 0x100 0 @ [0x01, 0x34]) 0x100 = Inr 0x01
     \<and> rom_get (replicate 0x100 0 @ [0x01, 0x34]) (0x100 + 1) = Inr 0x34
     \<and> next_arg (InstrArgsAnalyzer_init (replicate 0x100 0 @ [0x01, 0x34]) 0x100 0x102 0) ADDR =
           Inr (Some (LABEL, 0x0034, []),
                (InstrArgsAnalyzer_init (replicate 0x100 0 @ [0x01, 0x34]) 0x100 0x102 0)
                  \<lparr>ia_pc_arg := 0x102\<rparr>)"
proof -
  have a: "rom_get (replicate 0x100 0 @ [0x01, 0x34]) 0x100 = Inr 0x01"
    by (simp add: rom_get_def nth_append)
  have b: "rom_get (replicate 0x100 0 @ [0x01, 0x34]) (0x100 + 1) = Inr 0x34"
    by (simp add: rom_get_def nth_append)
  have v: "((0x102::int) AND 0xF800) OR 0x34 OR (push_bit 3 0x01 AND 0x700) = 0x34"
    by simp
  from next_arg_ADDR [OF a b, of "0x102" 0] a b v show ?thesis
    by simp
qed

lemma next_arg_cursor:
  assumes "next_arg analyzer iarg = Inr (Some analyzed, analyzer')"
  shows "ia_pc_arg analyzer' = ia_pc_arg analyzer + arg_bytes iarg"
  using assms
  by (auto simp: next_arg_def Let_def arg_bytes_def split: if_splits sum.splits)

lemma next_args_cursor:
  assumes "next_args analyzer iargs = Inr (Some decoded, analyzer')"
  shows "ia_pc_arg analyzer' = ia_pc_arg analyzer + sum_list (map arg_bytes iargs)"
  using assms
proof (induction iargs arbitrary: analyzer decoded)
  case Nil
  then show ?case by simp
next
  case (Cons iarg rest)
  from Cons.prems obtain analyzed mid others
    where first: "next_arg analyzer iarg = Inr (Some analyzed, mid)"
      and more: "next_args mid rest = Inr (Some others, analyzer')"
    by (auto split: sum.splits option.splits prod.splits)
  from next_arg_cursor [OF first] Cons.IH [OF more] show ?case
    by simp
qed

text \<open>
  C10. Every opcode from 0 to 255 has a descriptor whose length is one more than the
  bytes its operand kinds take (two for \<^verbatim>\<open>LABEL\<close>, one for every other kind); so whenever
  all operands of the instruction at \<open>pc\<close> decode, the decoder's cursor ends at
  \<open>pc + length\<close>, the address the scan advances to.
\<close>

theorem descriptor_length_is_bytes_decoded:
  assumes "0 \<le> code" and "code < 256"
  shows "\<exists>instr. map_of Instructions code = Some instr
           \<and> i_length instr = 1 + sum_list (map arg_bytes (i_args instr))
           \<and> (\<forall>rom pc offset decoded analyzer'.
                 next_args (InstrArgsAnalyzer_init rom pc (pc + i_length instr) offset) (i_args instr)
                   = Inr (Some decoded, analyzer')
                 \<longrightarrow> ia_pc_arg analyzer' = pc + i_length instr)"
proof -
  from assms obtain instr where instr: "map_of Instructions code = Some instr"
    using Instructions_total by blast
  have len: "i_length instr = 1 + sum_list (map arg_bytes (i_args instr))"
    using instr by (rule Instructions_length)
  have "ia_pc_arg analyzer' = pc + i_length instr"
    if "next_args (InstrArgsAnalyzer_init rom pc (pc + i_length instr) offset) (i_args instr)
          = Inr (Some decoded, analyzer')"
    for rom pc offset decoded analyzer'
    using next_args_cursor [OF that] len by (simp add: InstrArgsAnalyzer_init_def)
  with instr len show ?thesis
    by blast
qed

lemma Instructions_ljmp:
  "map_of Instructions 0x02 = Some (Instruction 0x02 3 ''ljmp {0}'' [LABEL] True False)"
  by code_simp

theorem descriptor_length_is_bytes_decoded_witness:
  "\<exists>instr decoded analyzer'. map_of Instructions 0x02 = Some instr
      \<and> i_length instr = 3
      \<and> next_args (InstrArgsAnalyzer_init [0x02, 0x12, 0x34] 0 (0 + i_length instr) 0) (i_args instr)
           = Inr (Some decoded, analyzer')
      \<and> decoded = [(LABEL, 0x1234, [])]
      \<and> ia_pc_arg analyzer' = 0 + i_length instr"
proof -
  from descriptor_length_is_bytes_decoded [of "0x02"]
  obtain instr where instr: "map_of Instructions 0x02 = Some instr"
    and cursor: "\<And>rom pc offset decoded analyzer'.
          next_args (InstrArgsAnalyzer_init rom pc (pc + i_length instr) offset) (i_args instr)
            = Inr (Some decoded, analyzer') \<Longrightarrow> ia_pc_arg analyzer' = pc + i_length instr"
    by auto
  from instr have shape: "instr = Instruction 0x02 3 ''ljmp {0}'' [LABEL] True False"
    by (simp add: Instructions_ljmp)
  have run: "next_args (InstrArgsAnalyzer_init [0x02, 0x12, 0x34] 0 (0 + i_length instr) 0) (i_args instr)
      = Inr (Some [(LABEL, 0x1234, [])],
             (InstrArgsAnalyzer_init [0x02, 0x12, 0x34] 0 3 0)\<lparr>ia_pc_arg := 3\<rparr>)"
    unfolding shape
    by (simp add: Instruction_def next_arg_def InstrArgsAnalyzer_init_def rom_get_def)
  from cursor [OF run] instr run shape show ?thesis
    by (auto simp: Instruction_def)
qed

section \<open>Operands that cannot be decoded\<close>


lemma Instructions_jc:
  "map_of Instructions 0x40 = Some (Instruction 0x40 2 ''jc {0}'' [REL] False False)"
  by code_simp

lemma Instructions_lcall:
  "map_of Instructions 0x12 = Some (Instruction 0x12 3 ''lcall {0}'' [LABEL] False False)"
  by code_simp

lemma Instructions_ret:
  "map_of Instructions 0x22 = Some (Instruction 0x22 1 ''ret'' [] True False)"
  by code_simp

lemma Instructions_ljmp_unfolded:
  "map_of Instructions 2 =
     Some \<lparr>i_code = 2, i_length = 3, i_mnemonic = ''ljmp {0}'', i_args = [LABEL],
           i_jump_out = True, i_no_jump = False\<rparr>"
  using Instructions_ljmp by (simp add: Instruction_def)

lemma Instructions_nop:
  "map_of Instructions 0x00 = Some (Instruction 0x00 1 ''nop'' [] False False)"
  by code_simp

lemma Instructions_mov_dptr:
  "map_of Instructions 0x90 = Some (Instruction 0x90 3 ''mov DPTR, #{0}'' [LABEL] False True)"
  by code_simp


lemma rom_get_last: "rom_get (xs @ [b]) (int (length xs)) = Inr (uint b)"
  by (simp add: rom_get_def)

lemma rom_get_beyond: "rom_get (xs @ [b]) (int (length xs) + 1) = Inl IndexError"
  by (simp add: rom_get_def)

text \<open>
  C2, evaluated where it fails. When the opcode is the last byte of the ROM, reading the
  first operand byte raises \<^verbatim>\<open>IndexError\<close> for every operand kind: the guard of
  \<^verbatim>\<open>next_arg\<close> compares \<^verbatim>\<open>pc\<close>, not the cursor, with the length of the ROM. The
  exception passes through \<^verbatim>\<open>__disassemble_instruction\<close> and \<^verbatim>\<open>disassemble_code_block\<close>:
  for the one-byte ROM holding the opcode of the three-byte \<^verbatim>\<open>ljmp\<close>, no raw-byte line
  is printed.
\<close>

theorem next_arg_opcode_last_byte_raises:
  "next_arg (InstrArgsAnalyzer_init (before @ [opcode]) (int (length before)) pc_rel offset) arg
      = Inl IndexError
   \<and> disassemble_instruction (CodeAnalyzer_init [0x02] addresses 0 False [] []) 0 = Inl IndexError
   \<and> disassemble_code_block (CodeAnalyzer_init [0x02] addresses 0 False [] []) 0 1 False
      = Inl IndexError"
proof -
  have a: "next_arg (InstrArgsAnalyzer_init (before @ [opcode]) (int (length before)) pc_rel offset) arg
      = Inl IndexError"
    by (simp add: next_arg_def InstrArgsAnalyzer_init_def rom_get_beyond)
  have n: "next_arg (InstrArgsAnalyzer_init [0x02] 0 3 0) LABEL = Inl IndexError"
    by (simp add: next_arg_def InstrArgsAnalyzer_init_def rom_get_def)
  have b: "disassemble_instruction (CodeAnalyzer_init [0x02] addresses 0 False [] []) 0 = Inl IndexError"
    by (simp add: disassemble_instruction_def CodeAnalyzer_init_def rom_get_def Instructions_ljmp
          Instruction_def n)
  have c: "disassemble_code_block (CodeAnalyzer_init [0x02] addresses 0 False [] []) 0 1 False
      = Inl IndexError"
    by (simp add: disassemble_code_block_def disassemble_step_def b split: prod.splits)
  from a b c show ?thesis
    by simp
qed

text \<open>
  C1, evaluated where it fails. In the ROM \<open>40 80 12 00 10 22\<close> the relative operand of
  the \<^verbatim>\<open>jc\<close> at address 0 resolves to \<open>2 - 128\<close>, so \<^verbatim>\<open>next_arg\<close> returns \<^verbatim>\<open>None\<close>. The
  scan from 0 does not stop there: the \<^verbatim>\<open>break\<close> leaves the operand loop only, the scan
  advances by the length of the instruction, classifies the target \<open>0x10\<close> of the
  \<^verbatim>\<open>lcall\<close> at address 2 and returns 6 after the \<^verbatim>\<open>ret\<close>.
\<close>

theorem analyze_jumps_scans_past_undecodable:
  "next_arg (InstrArgsAnalyzer_init [0x40, 0x80, 0x12, 0x00, 0x10, 0x22] 0 2 0) REL
      = Inr (None, (InstrArgsAnalyzer_init [0x40, 0x80, 0x12, 0x00, 0x10, 0x22] 0 2 0)\<lparr>ia_pc_arg := 2\<rparr>)
   \<and> analyze_jumps slot
        (CodeAnalyzer_init [0x40, 0x80, 0x12, 0x00, 0x10, 0x22] addresses 0 False [] []) 0 [] False
      = Inr (6,
             (CodeAnalyzer_init [0x40, 0x80, 0x12, 0x00, 0x10, 0x22] addresses 0 False [] [])
               \<lparr>ca_labels := [(0x10, JUMP)]\<rparr>,
             [0x10])"
proof -
  have a: "next_arg (InstrArgsAnalyzer_init [0x40, 0x80, 0x12, 0x00, 0x10, 0x22] 0 2 0) REL
      = Inr (None, (InstrArgsAnalyzer_init [0x40, 0x80, 0x12, 0x00, 0x10, 0x22] 0 2 0)\<lparr>ia_pc_arg := 2\<rparr>)"
    by (simp add: next_arg_def InstrArgsAnalyzer_init_def rom_get_def)
  have b: "analyze_loop 0 False
        (CodeAnalyzer_init [0x40, 0x80, 0x12, 0x00, 0x10, 0x22] addresses 0 False [] []) [] 0
      = Inr (6,
             (CodeAnalyzer_init [0x40, 0x80, 0x12, 0x00, 0x10, 0x22] addresses 0 False [] [])
               \<lparr>ca_labels := [(0x10, JUMP)]\<rparr>,
             [0x10])"
    by (simp add: analyze_loop.simps analyze_instr_def CodeAnalyzer_init_def rom_get_def
          Instructions_jc Instructions_lcall Instructions_ret Instruction_def
          next_arg_def InstrArgsAnalyzer_init_def classify_def set_add_def)
  from a b show ?thesis
    by (simp add: analyze_jumps_def set_iter_def)
qed

section \<open>The label table under scans\<close>

lemma scan_inv_start: "scan_inv self self []"
  by (auto simp: scan_inv_def)

lemma classify_inv:
  assumes "scan_inv self0 self jumps"
    and "classify start pc instr arg val (self, jumps, jump_out) = (self', jumps', jump_out')"
  shows "scan_inv self0 self' jumps'"
proof (cases "arg = LABEL \<and> val \<noteq> pc \<and> map_of (ca_labels self) val = None")
  case False
  with assms(2) have "ca_labels self' = ca_labels self" and "jumps' = jumps"
    by (auto simp: classify_def Let_def split: if_splits)
  with assms(1) show ?thesis
    by (simp add: scan_inv_def)
next
  case True
  define ltype where "ltype = (if i_no_jump instr then DPTR else JUMP)"
  from True assms(2) have labels: "map_of (ca_labels self') = (map_of (ca_labels self))(val \<mapsto> ltype)"
    and jumps: "jumps' = (if ltype = JUMP then set_add jumps val else jumps)"
    by (auto simp: classify_def Let_def ltype_def update_conv' split: if_splits)
  from assms(1) have keep: "\<And>a t. map_of (ca_labels self0) a = Some t \<Longrightarrow> map_of (ca_labels self) a = Some t"
    and dist: "distinct jumps"
    and mem: "set jumps = {a. map_of (ca_labels self) a = Some JUMP \<and> map_of (ca_labels self0) a = None}"
    by (auto simp: scan_inv_def)
  from True have fresh: "map_of (ca_labels self) val = None"
    by simp
  have fresh0: "map_of (ca_labels self0) val = None"
  proof (cases "map_of (ca_labels self0) val")
    case None
    then show ?thesis .
  next
    case (Some t)
    from keep [OF this] fresh show ?thesis by simp
  qed
  from mem fresh have notin: "val \<notin> set jumps"
    by auto
  have k: "\<And>a t. map_of (ca_labels self0) a = Some t \<Longrightarrow> map_of (ca_labels self') a = Some t"
    using keep fresh0 by (auto simp: labels)
  have d: "distinct jumps'"
    using dist notin by (simp add: jumps set_add_def)
  have m: "set jumps' = {a. map_of (ca_labels self') a = Some JUMP \<and> map_of (ca_labels self0) a = None}"
  proof (cases "ltype = JUMP")
    case True
    with notin have "set jumps' = insert val (set jumps)"
      by (simp add: jumps set_add_def)
    with True mem fresh0 show ?thesis
      by (auto simp: labels)
  next
    case False
    then have "jumps' = jumps"
      by (simp add: jumps)
    with False mem fresh show ?thesis
      by (auto simp: labels)
  qed
  from k d m show ?thesis
    by (simp add: scan_inv_def)
qed

lemma analyze_args_inv:
  assumes "scan_inv self0 self jumps"
    and "analyze_args start pc instr analyzer xs (self, jumps, jump_out) = Inr (self', jumps', jump_out')"
  shows "scan_inv self0 self' jumps'"
  using assms
proof (induction xs arbitrary: analyzer self jumps jump_out)
  case Nil
  then show ?case by simp
next
  case (Cons iarg rest)
  show ?case
  proof (cases "next_arg analyzer iarg")
    case (Inl e)
    with Cons.prems show ?thesis by simp
  next
    case (Inr r)
    obtain res analyzer' where r: "r = (res, analyzer')" by (cases r)
    show ?thesis
    proof (cases res)
      case None
      with Cons.prems Inr r show ?thesis by simp
    next
      case (Some t)
      obtain arg val hint where t: "t = (arg, val, hint)" by (cases t)
      obtain self1 jumps1 jump_out1
        where c: "classify start pc instr arg val (self, jumps, jump_out) = (self1, jumps1, jump_out1)"
        by (cases "classify start pc instr arg val (self, jumps, jump_out)")
      from Cons.prems(2) Inr r Some t c
      have run: "analyze_args start pc instr analyzer' rest (self1, jumps1, jump_out1)
                   = Inr (self', jumps', jump_out')"
        by simp
      from classify_inv [OF Cons.prems(1) c] run show ?thesis
        by (rule Cons.IH)
    qed
  qed
qed

lemma analyze_instr_inv:
  assumes "scan_inv self0 self jumps"
    and "analyze_instr start force pc instr (self, jumps) = Inr (self', jumps', jump_out)"
  shows "scan_inv self0 self' jumps'"
proof (cases "i_args instr = []")
  case True
  with assms show ?thesis
    by (simp add: analyze_instr_def)
next
  case False
  with assms(2) have "analyze_args start pc instr
      (InstrArgsAnalyzer_init (ca_rom self) pc (pc + i_length instr) (ca_offset self))
      (i_args instr) (self, jumps, i_jump_out instr \<and> \<not> force) = Inr (self', jumps', jump_out)"
    by (simp add: analyze_instr_def)
  with assms(1) show ?thesis
    by (rule analyze_args_inv)
qed

lemma analyze_loop_inv:
  assumes "scan_inv self0 self jumps"
    and "analyze_loop start force self jumps pc = Inr (pc', self', jumps')"
  shows "scan_inv self0 self' jumps'"
  using assms
proof (induction start force self jumps pc rule: analyze_loop.induct)
  case (1 start force self jumps pc)
  note unfold = analyze_loop.simps [of start force self jumps pc]
  show ?case
  proof (cases "pc < int (length (ca_rom self))")
    case False
    with "1.prems" show ?thesis
      by (simp add: unfold)
  next
    case True
    with "1.prems"(2) obtain code where code: "rom_get (ca_rom self) pc = Inr code"
      by (auto simp: unfold split: sum.splits)
    show ?thesis
    proof (cases "map_of Instructions code")
      case None
      with True code "1.prems" show ?thesis
        by (simp add: unfold)
    next
      case (Some instr)
      with True code "1.prems"(2) obtain self1 jumps1 jump_out
        where step: "analyze_instr start force pc instr (self, jumps) = Inr (self1, jumps1, jump_out)"
        by (auto simp: unfold split: sum.splits)
      from "1.prems"(1) step have inv1: "scan_inv self0 self1 jumps1"
        by (rule analyze_instr_inv)
      show ?thesis
      proof (cases jump_out)
        case True
        with \<open>pc < int (length (ca_rom self))\<close> code Some step "1.prems"(2)
        have "self' = self1" and "jumps' = jumps1"
          by (simp_all add: unfold)
        with inv1 show ?thesis by simp
      next
        case False
        with \<open>pc < int (length (ca_rom self))\<close> code Some step "1.prems"(2)
        have "analyze_loop start force self1 jumps1 (pc + i_length instr) = Inr (pc', self', jumps')"
          by (simp add: unfold)
        with "1.IH" [OF \<open>pc < int (length (ca_rom self))\<close> code Some step refl refl False inv1]
        show ?thesis by simp
      qed
    qed
  qed
qed

lemma analyze_jumps_inv:
  assumes "analyze_jumps slot self start entry_queue force = Inr (pc, self', entry_queue')"
  shows "\<exists>jumps. scan_inv self self' jumps \<and> entry_queue' = entry_queue @ set_iter slot jumps"
proof -
  from assms obtain jumps where loop: "analyze_loop start force self [] start = Inr (pc, self', jumps)"
    and q: "entry_queue' = entry_queue @ set_iter slot jumps"
    by (auto simp: analyze_jumps_def split: sum.splits)
  from scan_inv_start loop have "scan_inv self self' jumps"
    by (rule analyze_loop_inv)
  with q show ?thesis by blast
qed

lemma CodeAnalyzer_init_labels:
  "map_of (ca_labels (CodeAnalyzer_init rom addresses offset all_is_code no_return_from indirect)) a
     = (if a \<in> set indirect then Some ADDR' else None)"
proof -
  have "map_of (fold (\<lambda>address labels. AList.update address ADDR' labels) xs al) a
          = (if a \<in> set xs then Some ADDR' else map_of al a)" for xs al
    by (induction xs arbitrary: al) (auto simp: update_conv')
  then show ?thesis
    by (simp add: CodeAnalyzer_init_def)
qed

subsection \<open>A property that every classification keeps holds after the scan\<close>

lemma analyze_args_invariant:
  assumes "P self jumps"
    and step: "\<And>arg val self jumps jump_out self' jumps' jump_out'.
          P self jumps \<Longrightarrow>
          classify start pc instr arg val (self, jumps, jump_out) = (self', jumps', jump_out') \<Longrightarrow>
          P self' jumps'"
    and "analyze_args start pc instr analyzer xs (self, jumps, jump_out) = Inr (self', jumps', jump_out')"
  shows "P self' jumps'"
  using assms(1,3)
proof (induction xs arbitrary: analyzer self jumps jump_out)
  case Nil
  then show ?case by simp
next
  case (Cons iarg rest)
  show ?case
  proof (cases "next_arg analyzer iarg")
    case (Inl e)
    with Cons.prems show ?thesis by simp
  next
    case (Inr r)
    obtain res analyzer' where r: "r = (res, analyzer')" by (cases r)
    show ?thesis
    proof (cases res)
      case None
      with Cons.prems Inr r show ?thesis by simp
    next
      case (Some t)
      obtain arg val hint where t: "t = (arg, val, hint)" by (cases t)
      obtain self1 jumps1 jump_out1
        where c: "classify start pc instr arg val (self, jumps, jump_out) = (self1, jumps1, jump_out1)"
        by (cases "classify start pc instr arg val (self, jumps, jump_out)")
      from Cons.prems(2) Inr r Some t c
      have run: "analyze_args start pc instr analyzer' rest (self1, jumps1, jump_out1)
                   = Inr (self', jumps', jump_out')"
        by simp
      from step [OF Cons.prems(1) c] run show ?thesis
        by (rule Cons.IH)
    qed
  qed
qed

lemma analyze_instr_invariant:
  assumes "P self jumps"
    and step: "\<And>arg val self jumps jump_out self' jumps' jump_out'.
          P self jumps \<Longrightarrow>
          classify start pc instr arg val (self, jumps, jump_out) = (self', jumps', jump_out') \<Longrightarrow>
          P self' jumps'"
    and "analyze_instr start force pc instr (self, jumps) = Inr (self', jumps', jump_out)"
  shows "P self' jumps'"
proof (cases "i_args instr = []")
  case True
  with assms(1,3) show ?thesis
    by (simp add: analyze_instr_def)
next
  case False
  with assms(3) have run: "analyze_args start pc instr
      (InstrArgsAnalyzer_init (ca_rom self) pc (pc + i_length instr) (ca_offset self))
      (i_args instr) (self, jumps, i_jump_out instr \<and> \<not> force) = Inr (self', jumps', jump_out)"
    by (simp add: analyze_instr_def)
  show ?thesis
  proof (rule analyze_args_invariant [where P = P, OF assms(1) _ run])
    fix arg val s j jo s' j' jo'
    assume "P s j" and "classify start pc instr arg val (s, j, jo) = (s', j', jo')"
    then show "P s' j'"
      by (rule step)
  qed
qed

lemma analyze_loop_invariant:
  assumes "P self jumps"
    and step: "\<And>start pc instr arg val self jumps jump_out self' jumps' jump_out'.
          P self jumps \<Longrightarrow>
          classify start pc instr arg val (self, jumps, jump_out) = (self', jumps', jump_out') \<Longrightarrow>
          P self' jumps'"
    and "analyze_loop start force self jumps pc = Inr (pc', self', jumps')"
  shows "P self' jumps'"
  using assms(1,3)
proof (induction start force self jumps pc rule: analyze_loop.induct)
  case (1 start force self jumps pc)
  note unfold = analyze_loop.simps [of start force self jumps pc]
  show ?case
  proof (cases "pc < int (length (ca_rom self))")
    case False
    with "1.prems" show ?thesis
      by (simp add: unfold)
  next
    case True
    with "1.prems"(2) obtain code where code: "rom_get (ca_rom self) pc = Inr code"
      by (auto simp: unfold split: sum.splits)
    show ?thesis
    proof (cases "map_of Instructions code")
      case None
      with True code "1.prems" show ?thesis
        by (simp add: unfold)
    next
      case (Some instr)
      with True code "1.prems"(2) obtain self1 jumps1 jump_out
        where run: "analyze_instr start force pc instr (self, jumps) = Inr (self1, jumps1, jump_out)"
        by (auto simp: unfold split: sum.splits)
      have inv1: "P self1 jumps1"
      proof (rule analyze_instr_invariant [where P = P, OF "1.prems"(1) _ run])
        fix arg val s j jo s' j' jo'
        assume "P s j" and "classify start pc instr arg val (s, j, jo) = (s', j', jo')"
        then show "P s' j'"
          by (rule step)
      qed
      show ?thesis
      proof (cases jump_out)
        case True
        with \<open>pc < int (length (ca_rom self))\<close> code Some run "1.prems"(2)
        have "self' = self1" and "jumps' = jumps1"
          by (simp_all add: unfold)
        with inv1 show ?thesis by simp
      next
        case False
        with \<open>pc < int (length (ca_rom self))\<close> code Some run "1.prems"(2)
        have "analyze_loop start force self1 jumps1 (pc + i_length instr) = Inr (pc', self', jumps')"
          by (simp add: unfold)
        with "1.IH" [OF \<open>pc < int (length (ca_rom self))\<close> code Some run refl refl False inv1]
        show ?thesis by simp
      qed
    qed
  qed
qed

subsection \<open>The label table only grows at its end\<close>

lemma update_fresh:
  assumes "map_of al k = None"
  shows "AList.update k v al = al @ [(k, v)]"
  using assms by (induction al) (auto split: if_splits)

lemma classify_extends:
  assumes "classify start pc instr arg val (self, jumps, jump_out) = (self', jumps', jump_out')"
  shows "\<exists>added. ca_labels self' = ca_labels self @ added"
  using assms by (auto simp: classify_def Let_def update_fresh split: if_splits)

lemma extends_step:
  assumes "\<exists>added. ca_labels self = ca_labels self0 @ added"
    and "classify start pc instr arg val (self, jumps, jump_out) = (self', jumps', jump_out')"
  shows "\<exists>added. ca_labels self' = ca_labels self0 @ added"
  using assms(1) classify_extends [OF assms(2)] by auto

lemma analyze_args_extends:
  assumes "analyze_args start pc instr analyzer xs (self, jumps, jump_out) = Inr (self', jumps', jump_out')"
  shows "\<exists>added. ca_labels self' = ca_labels self @ added"
  by (rule analyze_args_invariant
        [where P = "\<lambda>s j. \<exists>added. ca_labels s = ca_labels self @ added", OF _ _ assms])
     (auto intro: extends_step)


lemma analyze_loop_extends:
  assumes "analyze_loop start force self jumps pc = Inr (pc', self', jumps')"
  shows "\<exists>added. ca_labels self' = ca_labels self @ added"
  by (rule analyze_loop_invariant
        [where P = "\<lambda>s j. \<exists>added. ca_labels s = ca_labels self @ added", OF _ _ assms])
     (auto intro: extends_step)

lemma analyze_jumps_calls_extends:
  assumes "analyze_jumps_calls slot self entry_queue calls = Inr (self', entry_queue')"
  shows "\<exists>added. ca_labels self' = ca_labels self @ added"
  using assms
proof (induction calls arbitrary: self entry_queue)
  case Nil
  then show ?case by simp
next
  case (Cons call calls)
  obtain start force where call: "call = (start, force)" by (cases call)
  from Cons.prems call obtain pc self1 queue1 jumps
    where one: "analyze_loop start force self [] start = Inr (pc, self1, jumps)"
      and rest: "analyze_jumps_calls slot self1 queue1 calls = Inr (self', entry_queue')"
    by (auto simp: analyze_jumps_def split: sum.splits)
  from analyze_loop_extends [OF one] Cons.IH [OF rest] show ?case
    by auto
qed

lemma extends_keeps:
  assumes "ca_labels self' = ca_labels self @ added"
    and "map_of (ca_labels self) a = Some t"
  shows "map_of (ca_labels self') a = Some t"
  using assms by simp

subsection \<open>The addresses a scan can classify\<close>

lemma next_arg_LABEL_kind:
  assumes "next_arg analyzer iarg = Inr (Some (LABEL, val, hint), analyzer')"
  shows "label_kind iarg"
  using assms
  by (cases iarg) (auto simp: next_arg_def Let_def label_kind_def split: if_splits sum.splits)

lemma arg_targets_length: "length (arg_targets analyzer xs) \<le> length (filter label_kind xs)"
proof (induction xs arbitrary: analyzer)
  case Nil
  then show ?case by simp
next
  case (Cons iarg rest)
  show ?case
  proof (cases "next_arg analyzer iarg")
    case (Inl e)
    then show ?thesis by simp
  next
    case (Inr r)
    obtain res analyzer' where r: "r = (res, analyzer')" by (cases r)
    show ?thesis
    proof (cases res)
      case None
      with Inr r show ?thesis by simp
    next
      case (Some t)
      obtain arg val hint where t: "t = (arg, val, hint)" by (cases t)
      have "arg = LABEL \<Longrightarrow> label_kind iarg"
        using Inr r Some t next_arg_LABEL_kind by blast
      with Cons.IH [of analyzer'] Inr r Some t show ?thesis
        by (auto simp: le_SucI)
    qed
  qed
qed

lemma filter_butlast_none:
  assumes "list_all (\<lambda>a. \<not> P a) (butlast xs)"
  shows "length (filter P xs) \<le> 1"
proof (cases xs rule: rev_cases)
  case Nil
  then show ?thesis by simp
next
  case (snoc ys y)
  with assms have "filter P ys = []"
    by (simp add: list_all_iff filter_empty_conv)
  with snoc show ?thesis by simp
qed

lemma Instructions_one_label:
  assumes "map_of Instructions c = Some instr"
  shows "length (filter label_kind (i_args instr)) \<le> 1"
proof -
  from Instructions_SomeD(1) [OF assms] all_adds_shape
  have "list_all (\<lambda>a. a \<noteq> LABEL \<and> a \<noteq> REL \<and> a \<noteq> ADDR) (butlast (i_args instr))"
    by (simp add: list_all_iff)
  then have "list_all (\<lambda>a. \<not> label_kind a) (butlast (i_args instr))"
    by (simp add: label_kind_def)
  then show ?thesis
    by (rule filter_butlast_none)
qed

lemma targets_at_length: "length (targets_at rom offset pc) \<le> 1"
proof (cases "rom_get rom pc")
  case (Inl e)
  then show ?thesis by (simp add: targets_at_def)
next
  case (Inr code)
  show ?thesis
  proof (cases "map_of Instructions code")
    case None
    with Inr show ?thesis by (simp add: targets_at_def)
  next
    case (Some instr)
    from arg_targets_length [of _ "i_args instr"] Instructions_one_label [OF Some]
    have "length (arg_targets (InstrArgsAnalyzer_init rom pc (pc + i_length instr) offset)
                    (i_args instr)) \<le> 1"
      by (rule order_trans)
    with Inr Some show ?thesis by (simp add: targets_at_def)
  qed
qed

lemma other_targets_at_length: "length (other_targets_at rom offset pc) \<le> 1"
proof -
  have "length (other_targets_at rom offset pc) \<le> length (targets_at rom offset pc)"
    by (simp add: other_targets_at_def)
  with targets_at_length [of rom offset pc] show ?thesis
    by linarith
qed

lemma targets_from_finite: "finite (targets_from rom offset lo)"
  by (simp add: targets_from_def)

lemma targets_from_mono:
  assumes "lo \<le> lo'"
  shows "targets_from rom offset lo' \<subseteq> targets_from rom offset lo"
  unfolding targets_from_def using assms by (intro UN_mono) auto

lemma targets_from_all: "targets_from rom offset lo \<subseteq> all_targets rom offset"
  unfolding all_targets_def targets_from_def by (intro UN_mono) auto

lemma all_targets_finite: "finite (all_targets rom offset)"
  by (simp add: all_targets_def targets_from_finite)

lemma targets_from_card: "card (targets_from rom offset 0) \<le> length rom"
proof -
  let ?I = "{0 ..< int (length rom)}"
  have "targets_from rom offset 0 = (\<Union>pc \<in> ?I. set (other_targets_at rom offset pc))"
    by (simp add: targets_from_def)
  then have "card (targets_from rom offset 0)
               \<le> (\<Sum>pc \<in> ?I. card (set (other_targets_at rom offset pc)))"
    by (simp add: card_UN_le)
  also have "\<dots> \<le> (\<Sum>pc \<in> ?I. 1)"
  proof (rule sum_mono)
    fix pc
    have "card (set (other_targets_at rom offset pc)) \<le> length (other_targets_at rom offset pc)"
      by (rule card_length)
    also have "\<dots> \<le> 1"
      by (rule other_targets_at_length)
    finally show "card (set (other_targets_at rom offset pc)) \<le> 1" .
  qed
  also have "\<dots> = length rom"
    by simp
  finally show ?thesis .
qed

subsection \<open>A scan adds only such addresses\<close>

lemma keys_map_of: "a \<in> keys self \<longleftrightarrow> map_of (ca_labels self) a \<noteq> None"
  by (simp add: keys_def map_of_eq_None_iff)

lemma classify_labels_cases:
  assumes "classify start pc instr arg val (self, jumps, jump_out) = (self', jumps', jump_out')"
  shows "(ca_labels self' = ca_labels self \<and> jumps' = jumps)
           \<or> (arg = LABEL \<and> val \<noteq> pc
                \<and> (\<exists>ltype. ca_labels self' = AList.update val ltype (ca_labels self))
                \<and> set jumps' \<subseteq> insert val (set jumps))"
  using assms
  by (auto simp: classify_def Let_def set_add_def split: if_splits)

lemma classify_keys:
  assumes "classify start pc instr arg val (self, jumps, jump_out) = (self', jumps', jump_out')"
  shows "keys self' \<subseteq> keys self \<union> (if arg = LABEL \<and> val \<noteq> pc then {val} else {})
           \<and> set jumps' \<subseteq> set jumps \<union> (if arg = LABEL \<and> val \<noteq> pc then {val} else {})"
proof -
  from classify_labels_cases [OF assms]
  consider "ca_labels self' = ca_labels self" and "jumps' = jumps"
    | ltype where "arg = LABEL" and "val \<noteq> pc"
        and "ca_labels self' = AList.update val ltype (ca_labels self)"
        and "set jumps' \<subseteq> insert val (set jumps)"
    by blast
  then show ?thesis
  proof cases
    case 1
    then show ?thesis by (simp add: keys_def)
  next
    case 2
    then have "keys self' = {val} \<union> keys self"
      by (simp add: keys_def dom_update)
    with 2 show ?thesis by auto
  qed
qed

lemma analyze_args_keys:
  assumes "analyze_args start pc instr analyzer xs (self, jumps, jump_out) = Inr (self', jumps', jump_out')"
  shows "keys self' \<subseteq> keys self \<union> (set (arg_targets analyzer xs) - {pc})
           \<and> set jumps' \<subseteq> set jumps \<union> (set (arg_targets analyzer xs) - {pc})"
  using assms
proof (induction xs arbitrary: analyzer self jumps jump_out)
  case Nil
  then show ?case by simp
next
  case (Cons iarg rest)
  show ?case
  proof (cases "next_arg analyzer iarg")
    case (Inl e)
    with Cons.prems show ?thesis by simp
  next
    case (Inr r)
    obtain res analyzer' where r: "r = (res, analyzer')" by (cases r)
    show ?thesis
    proof (cases res)
      case None
      with Cons.prems Inr r show ?thesis by simp
    next
      case (Some t)
      obtain arg val hint where t: "t = (arg, val, hint)" by (cases t)
      obtain self1 jumps1 jump_out1
        where c: "classify start pc instr arg val (self, jumps, jump_out) = (self1, jumps1, jump_out1)"
        by (cases "classify start pc instr arg val (self, jumps, jump_out)")
      from Cons.prems Inr r Some t c
      have run: "analyze_args start pc instr analyzer' rest (self1, jumps1, jump_out1)
                   = Inr (self', jumps', jump_out')"
        by simp
      have targets: "arg_targets analyzer (iarg # rest)
                       = (if arg = LABEL then [val] else []) @ arg_targets analyzer' rest"
        using Inr r Some t by simp
      from Cons.IH [OF run] classify_keys [OF c] show ?thesis
        unfolding targets by (auto split: if_splits)
    qed
  qed
qed

lemma analyze_instr_keys:
  assumes "analyze_instr start force pc instr (self, jumps) = Inr (self', jumps', jump_out)"
    and "rom_get (ca_rom self) pc = Inr code"
    and "map_of Instructions code = Some instr"
  shows "keys self' \<subseteq> keys self \<union> set (other_targets_at (ca_rom self) (ca_offset self) pc)"
proof (cases "i_args instr = []")
  case True
  with assms(1) show ?thesis
    by (auto simp: analyze_instr_def)
next
  case False
  with assms(1) have "analyze_args start pc instr
      (InstrArgsAnalyzer_init (ca_rom self) pc (pc + i_length instr) (ca_offset self))
      (i_args instr) (self, jumps, i_jump_out instr \<and> \<not> force) = Inr (self', jumps', jump_out)"
    by (simp add: analyze_instr_def)
  from analyze_args_keys [OF this] assms(2,3) show ?thesis
    by (auto simp: other_targets_at_def targets_at_def)
qed

lemma other_targets_at_from:
  assumes "rom_get rom pc = Inr code"
  shows "set (other_targets_at rom offset pc) \<subseteq> targets_from rom offset pc"
  using rom_get_Inr_range [OF assms] by (fastforce simp: targets_from_def)

lemma analyze_loop_keys:
  assumes "analyze_loop start force self jumps pc = Inr (pc', self', jumps')"
  shows "ca_rom self' = ca_rom self \<and> ca_offset self' = ca_offset self
           \<and> keys self' \<subseteq> keys self \<union> targets_from (ca_rom self) (ca_offset self) pc"
  using assms
proof (induction start force self jumps pc rule: analyze_loop.induct)
  case (1 start force self jumps pc)
  note unfold = analyze_loop.simps [of start force self jumps pc]
  show ?case
  proof (cases "pc < int (length (ca_rom self))")
    case False
    with "1.prems" show ?thesis
      by (simp add: unfold)
  next
    case True
    with "1.prems" obtain code where code: "rom_get (ca_rom self) pc = Inr code"
      by (auto simp: unfold split: sum.splits)
    show ?thesis
    proof (cases "map_of Instructions code")
      case None
      with True code "1.prems" show ?thesis
        by (simp add: unfold)
    next
      case (Some instr)
      with True code "1.prems" obtain self1 jumps1 jump_out
        where run: "analyze_instr start force pc instr (self, jumps) = Inr (self1, jumps1, jump_out)"
        by (auto simp: unfold split: sum.splits)
      note config = analyze_instr_config(1,2) [OF run]
      from analyze_instr_keys [OF run code Some] other_targets_at_from [OF code]
      have grown: "keys self1 \<subseteq> keys self \<union> targets_from (ca_rom self) (ca_offset self) pc"
        by blast
      show ?thesis
      proof (cases jump_out)
        case True
        with \<open>pc < int (length (ca_rom self))\<close> code Some run "1.prems"
        have "self' = self1"
          by (simp add: unfold)
        with config grown show ?thesis by simp
      next
        case False
        with \<open>pc < int (length (ca_rom self))\<close> code Some run "1.prems"
        have "analyze_loop start force self1 jumps1 (pc + i_length instr) = Inr (pc', self', jumps')"
          by (simp add: unfold)
        from "1.IH" [OF \<open>pc < int (length (ca_rom self))\<close> code Some run refl refl False this] config
        have later: "ca_rom self' = ca_rom self" "ca_offset self' = ca_offset self"
          "keys self' \<subseteq> keys self1
             \<union> targets_from (ca_rom self) (ca_offset self) (pc + i_length instr)"
          by simp_all
        have "pc \<le> pc + i_length instr"
          using Instructions_length_pos [OF Some] by simp
        from targets_from_mono [OF this] later grown show ?thesis
          by blast
      qed
    qed
  qed
qed

text \<open>Everything the later proofs use about one call of \<^verbatim>\<open>analyze_jumps\<close>.\<close>

lemma analyze_jumps_step:
  assumes "analyze_jumps slot self start entry_queue force = Inr (pc, self', entry_queue')"
  shows "ca_rom self' = ca_rom self" and "ca_offset self' = ca_offset self"
    and "keys self \<subseteq> keys self'"
    and "keys self' \<subseteq> keys self \<union> targets_from (ca_rom self) (ca_offset self) start"
    and "\<exists>appended. entry_queue' = entry_queue @ appended \<and> distinct appended
           \<and> set appended = {a. map_of (ca_labels self') a = Some JUMP \<and> map_of (ca_labels self) a = None}"
    and "\<And>a t. map_of (ca_labels self) a = Some t \<Longrightarrow> map_of (ca_labels self') a = Some t"
proof -
  from assms obtain jumps where loop: "analyze_loop start force self [] start = Inr (pc, self', jumps)"
    by (auto simp: analyze_jumps_def split: sum.splits)
  from analyze_loop_keys [OF loop]
  show "ca_rom self' = ca_rom self" and "ca_offset self' = ca_offset self"
    and "keys self' \<subseteq> keys self \<union> targets_from (ca_rom self) (ca_offset self) start"
    by simp_all
  from analyze_jumps_inv [OF assms] obtain js
    where inv: "scan_inv self self' js" and q: "entry_queue' = entry_queue @ set_iter slot js"
    by blast
  from inv show keep: "\<And>a t. map_of (ca_labels self) a = Some t \<Longrightarrow> map_of (ca_labels self') a = Some t"
    by (simp add: scan_inv_def)
  then show "keys self \<subseteq> keys self'"
    by (auto simp: keys_map_of)
  from inv q
  show "\<exists>appended. entry_queue' = entry_queue @ appended \<and> distinct appended
           \<and> set appended = {a. map_of (ca_labels self') a = Some JUMP \<and> map_of (ca_labels self) a = None}"
    by (auto simp: scan_inv_def set_iter_def)
qed

subsection \<open>An instruction whose label operand is its own address\<close>






subsection \<open>A scan over instructions whose label operands are all self-jumps\<close>




section \<open>Self-jumps\<close>








section \<open>The first classification of an address\<close>

text \<open>
  C7. From every state that a scan passes through, the label table only grows at its
  end, and an address that has a classification keeps exactly that classification:
  through the classification of one operand, through the rest of the operand loop of
  an instruction, through the rest of the scan from any address, with any set of new
  jumps, and through any sequence of calls of the scan. So a classification stored
  earlier in the same scan is protected like one that was there before the scan, and
  the entries that the constructor seeds from \<^verbatim>\<open>indirect\<close> stay \<^verbatim>\<open>ADDR\<close> entries.
\<close>

theorem first_classification_kept:
  "(\<forall>self' jumps' jump_out'.
       classify start pc instr arg val (self, jumps, jump_out) = (self', jumps', jump_out')
       \<longrightarrow> (\<exists>added. ca_labels self' = ca_labels self @ added)
           \<and> (map_of (ca_labels self) address = Some ltype
                \<longrightarrow> map_of (ca_labels self') address = Some ltype))
   \<and> (\<forall>self' jumps' jump_out'.
       analyze_args start pc instr analyzer iargs (self, jumps, jump_out) = Inr (self', jumps', jump_out')
       \<longrightarrow> (\<exists>added. ca_labels self' = ca_labels self @ added)
           \<and> (map_of (ca_labels self) address = Some ltype
                \<longrightarrow> map_of (ca_labels self') address = Some ltype))
   \<and> (\<forall>pc' self' jumps'.
       analyze_loop start force self jumps pc = Inr (pc', self', jumps')
       \<longrightarrow> (\<exists>added. ca_labels self' = ca_labels self @ added)
           \<and> (map_of (ca_labels self) address = Some ltype
                \<longrightarrow> map_of (ca_labels self') address = Some ltype))
   \<and> (\<forall>self' entry_queue'.
       analyze_jumps_calls slot self entry_queue calls = Inr (self', entry_queue')
       \<longrightarrow> (\<exists>added. ca_labels self' = ca_labels self @ added)
           \<and> (map_of (ca_labels self) address = Some ltype
                \<longrightarrow> map_of (ca_labels self') address = Some ltype))
   \<and> (\<forall>self' entry_queue'.
       analyze_jumps_calls slot
           (CodeAnalyzer_init rom addresses offset all_is_code no_return_from indirect)
           entry_queue calls = Inr (self', entry_queue')
       \<and> address \<in> set indirect
       \<longrightarrow> map_of (ca_labels self') address = Some ADDR')"
proof (intro conjI allI impI)
  fix self' jumps' jump_out'
  assume "classify start pc instr arg val (self, jumps, jump_out) = (self', jumps', jump_out')"
  then show grown: "\<exists>added. ca_labels self' = ca_labels self @ added"
    by (rule classify_extends)
  assume "map_of (ca_labels self) address = Some ltype"
  with grown show "map_of (ca_labels self') address = Some ltype"
    by (auto intro: extends_keeps)
next
  fix self' jumps' jump_out'
  assume "analyze_args start pc instr analyzer iargs (self, jumps, jump_out) = Inr (self', jumps', jump_out')"
  then show grown: "\<exists>added. ca_labels self' = ca_labels self @ added"
    by (rule analyze_args_extends)
  assume "map_of (ca_labels self) address = Some ltype"
  with grown show "map_of (ca_labels self') address = Some ltype"
    by (auto intro: extends_keeps)
next
  fix pc' self' jumps'
  assume "analyze_loop start force self jumps pc = Inr (pc', self', jumps')"
  then show grown: "\<exists>added. ca_labels self' = ca_labels self @ added"
    by (rule analyze_loop_extends)
  assume "map_of (ca_labels self) address = Some ltype"
  with grown show "map_of (ca_labels self') address = Some ltype"
    by (auto intro: extends_keeps)
next
  fix self' entry_queue'
  assume "analyze_jumps_calls slot self entry_queue calls = Inr (self', entry_queue')"
  then show grown: "\<exists>added. ca_labels self' = ca_labels self @ added"
    by (rule analyze_jumps_calls_extends)
  assume "map_of (ca_labels self) address = Some ltype"
  with grown show "map_of (ca_labels self') address = Some ltype"
    by (auto intro: extends_keeps)
next
  fix self' entry_queue'
  assume "analyze_jumps_calls slot
           (CodeAnalyzer_init rom addresses offset all_is_code no_return_from indirect)
           entry_queue calls = Inr (self', entry_queue')
       \<and> address \<in> set indirect"
  then have run: "analyze_jumps_calls slot
           (CodeAnalyzer_init rom addresses offset all_is_code no_return_from indirect)
           entry_queue calls = Inr (self', entry_queue')"
    and seeded: "map_of (ca_labels (CodeAnalyzer_init rom addresses offset all_is_code no_return_from indirect))
           address = Some ADDR'"
    by (simp_all add: CodeAnalyzer_init_labels)
  from analyze_jumps_calls_extends [OF run] seeded
  show "map_of (ca_labels self') address = Some ADDR'"
    by (auto intro: extends_keeps)
qed

theorem first_classification_kept_witness:
  "analyze_loop 0 False
       (CodeAnalyzer_init [0x12, 0x00, 0x10, 0x90, 0x00, 0x10, 0x22] no_symbols 0 False [] []) [] 0
     = Inr (7, (CodeAnalyzer_init [0x12, 0x00, 0x10, 0x90, 0x00, 0x10, 0x22] no_symbols 0 False [] [])
                 \<lparr>ca_labels := [(0x10, JUMP)]\<rparr>, [0x10])
   \<and> analyze_loop 0 False
       ((CodeAnalyzer_init [0x12, 0x00, 0x10, 0x90, 0x00, 0x10, 0x22] no_symbols 0 False [] [])
          \<lparr>ca_labels := [(0x10, JUMP)]\<rparr>) [0x10] 3
     = Inr (7, (CodeAnalyzer_init [0x12, 0x00, 0x10, 0x90, 0x00, 0x10, 0x22] no_symbols 0 False [] [])
                 \<lparr>ca_labels := [(0x10, JUMP)]\<rparr>, [0x10])
   \<and> classify 0 3 (Instruction 0x90 3 ''mov DPTR, #{0}'' [LABEL] False True) LABEL 0x10
       ((CodeAnalyzer_init [0x12, 0x00, 0x10, 0x90, 0x00, 0x10, 0x22] no_symbols 0 False [] [])
          \<lparr>ca_labels := [(0x10, JUMP)]\<rparr>, [0x10], False)
     = ((CodeAnalyzer_init [0x12, 0x00, 0x10, 0x90, 0x00, 0x10, 0x22] no_symbols 0 False [] [])
          \<lparr>ca_labels := [(0x10, JUMP)]\<rparr>, [0x10], False)
   \<and> analyze_jumps_calls small_set_slot
       (CodeAnalyzer_init [0x02, 0x00, 0x05] no_symbols 0 False [] [5]) [] [(0, False)]
     = Inr ((CodeAnalyzer_init [0x02, 0x00, 0x05] no_symbols 0 False [] [5])
              \<lparr>ca_forwards := [0 \<mapsto> 5]\<rparr>, [])
   \<and> map_of (ca_labels ((CodeAnalyzer_init [0x12, 0x00, 0x10, 0x90, 0x00, 0x10, 0x22]
                            no_symbols 0 False [] [])\<lparr>ca_labels := [(0x10, JUMP)]\<rparr>)) 0x10
       = Some JUMP
   \<and> map_of (ca_labels ((CodeAnalyzer_init [0x02, 0x00, 0x05] no_symbols 0 False [] [5])
                           \<lparr>ca_forwards := [0 \<mapsto> 5]\<rparr>)) 5 = Some ADDR'"
proof -
  define first where
    "first = CodeAnalyzer_init [0x12, 0x00, 0x10, 0x90, 0x00, 0x10, 0x22] no_symbols 0 False [] []"
  define middle where "middle = first\<lparr>ca_labels := [(0x10, JUMP)]\<rparr>"
  define mov where "mov = Instruction 0x90 3 ''mov DPTR, #{0}'' [LABEL] False True"
  define seeded where "seeded = CodeAnalyzer_init [0x02, 0x00, 0x05] no_symbols 0 False [] [5]"
  have whole: "analyze_loop 0 False first [] 0 = Inr (7, middle, [0x10])"
    by (simp add: first_def middle_def analyze_loop.simps analyze_instr_def CodeAnalyzer_init_def
          rom_get_def Instructions_lcall Instructions_mov_dptr Instructions_ret Instruction_def
          next_arg_def InstrArgsAnalyzer_init_def classify_def set_add_def)
  have rest: "analyze_loop 0 False middle [0x10] 3 = Inr (7, middle, [0x10])"
    by (simp add: first_def middle_def analyze_loop.simps analyze_instr_def CodeAnalyzer_init_def
          rom_get_def Instructions_lcall Instructions_mov_dptr Instructions_ret Instruction_def
          next_arg_def InstrArgsAnalyzer_init_def classify_def set_add_def)
  have operand: "classify 0 3 mov LABEL 0x10 (middle, [0x10], False) = (middle, [0x10], False)"
    by (simp add: first_def middle_def mov_def classify_def Instruction_def CodeAnalyzer_init_def)
  have calls: "analyze_jumps_calls small_set_slot seeded [] [(0, False)]
                 = Inr (seeded\<lparr>ca_forwards := [0 \<mapsto> 5]\<rparr>, [])"
    by (simp add: seeded_def analyze_jumps_def analyze_loop.simps analyze_instr_def
          CodeAnalyzer_init_def rom_get_def Instructions_ljmp_unfolded next_arg_def
          InstrArgsAnalyzer_init_def classify_def set_iter_def)
  have stored: "map_of (ca_labels middle) 0x10 = Some JUMP"
    by (simp add: middle_def)
  note claim = first_classification_kept
    [where self = middle and jumps = "[0x10]" and pc = 3 and start = 0 and force = False
       and address = "0x10" and ltype = JUMP and instr = mov and arg = LABEL and val = "0x10"
       and jump_out = False]
  from claim rest stored have kept: "map_of (ca_labels middle) 0x10 = Some JUMP"
    by blast
  from claim operand stored have "\<exists>added. ca_labels middle = ca_labels middle @ added"
    by blast
  note seeds = first_classification_kept
    [where rom = "[0x02, 0x00, 0x05]" and addresses = no_symbols and offset = 0 and all_is_code = False
       and no_return_from = "[]" and indirect = "[5]" and address = 5 and slot = small_set_slot
       and entry_queue = "[]" and calls = "[(0, False)]", folded seeded_def]
  from seeds calls have "map_of (ca_labels (seeded\<lparr>ca_forwards := [0 \<mapsto> 5]\<rparr>)) 5 = Some ADDR'"
    by simp
  with whole rest operand calls kept show ?thesis
    by (simp add: first_def middle_def mov_def seeded_def)
qed

section \<open>The queue after a scan\<close>

text \<open>
  C8 as stated fails on the order. In the ROM \<open>12 00 02 12 00 01 22\<close> the scan from 0
  discovers the target 2 and then the target 1; the set \<^verbatim>\<open>jumps\<close>, walked by slot as
  CPython lays out \<open>{2, 1}\<close>, appends 1 and then 2 to the queue.
\<close>

theorem queue_order_counterexample:
  "analyze_loop 0 False
       (CodeAnalyzer_init [0x12, 0x00, 0x02, 0x12, 0x00, 0x01, 0x22] no_symbols 0 False [] []) [] 0
     = Inr (7, (CodeAnalyzer_init [0x12, 0x00, 0x02, 0x12, 0x00, 0x01, 0x22] no_symbols 0 False [] [])
                 \<lparr>ca_labels := [(2, JUMP), (1, JUMP)]\<rparr>, [2, 1])
   \<and> analyze_jumps small_set_slot
       (CodeAnalyzer_init [0x12, 0x00, 0x02, 0x12, 0x00, 0x01, 0x22] no_symbols 0 False [] []) 0 [] False
     = Inr (7, (CodeAnalyzer_init [0x12, 0x00, 0x02, 0x12, 0x00, 0x01, 0x22] no_symbols 0 False [] [])
                 \<lparr>ca_labels := [(2, JUMP), (1, JUMP)]\<rparr>, [1, 2])"
proof -
  have loop: "analyze_loop 0 False
       (CodeAnalyzer_init [0x12, 0x00, 0x02, 0x12, 0x00, 0x01, 0x22] no_symbols 0 False [] []) [] 0
     = Inr (7, (CodeAnalyzer_init [0x12, 0x00, 0x02, 0x12, 0x00, 0x01, 0x22] no_symbols 0 False [] [])
                 \<lparr>ca_labels := [(2, JUMP), (1, JUMP)]\<rparr>, [2, 1])"
    by (simp add: analyze_loop.simps analyze_instr_def CodeAnalyzer_init_def rom_get_def
          Instructions_lcall Instructions_ret Instruction_def next_arg_def InstrArgsAnalyzer_init_def
          classify_def set_add_def)
  have iter: "set_iter small_set_slot [2, 1] = [1, 2]"
    by (simp add: set_iter_def small_set_slot_def)
  from loop iter show ?thesis
    by (simp add: analyze_jumps_def)
qed

text \<open>
  C8, amended. After a call of \<^verbatim>\<open>analyze_jumps\<close> the queue is the old queue followed by
  exactly the addresses that the call classified as \<^verbatim>\<open>JUMP\<close> and that had no entry in
  the label table before the call, each once, in the iteration order of the set that
  collected them.
\<close>

theorem analyze_jumps_appends_new_jumps:
  assumes "analyze_jumps slot self start entry_queue force = Inr (pc, self', entry_queue')"
  shows "\<exists>appended. entry_queue' = entry_queue @ appended \<and> distinct appended
           \<and> set appended = {a. map_of (ca_labels self') a = Some JUMP \<and> map_of (ca_labels self) a = None}"
proof -
  from analyze_jumps_inv [OF assms] obtain jumps
    where inv: "scan_inv self self' jumps" and q: "entry_queue' = entry_queue @ set_iter slot jumps"
    by blast
  from inv have "distinct (set_iter slot jumps)"
    and "set (set_iter slot jumps)
           = {a. map_of (ca_labels self') a = Some JUMP \<and> map_of (ca_labels self) a = None}"
    by (simp_all add: scan_inv_def set_iter_def)
  with q show ?thesis
    by blast
qed

theorem analyze_jumps_appends_new_jumps_witness:
  "analyze_jumps small_set_slot
       (CodeAnalyzer_init [0x12, 0x00, 0x02, 0x12, 0x00, 0x01, 0x22] no_symbols 0 False [] [2]) 0 [9] False
     = Inr (7, (CodeAnalyzer_init [0x12, 0x00, 0x02, 0x12, 0x00, 0x01, 0x22] no_symbols 0 False [] [2])
                 \<lparr>ca_labels := [(2, ADDR'), (1, JUMP)]\<rparr>, [9, 1])
   \<and> (\<exists>appended. [9, 1] = [9] @ appended \<and> distinct appended
         \<and> set appended =
             {a. map_of (ca_labels ((CodeAnalyzer_init [0x12, 0x00, 0x02, 0x12, 0x00, 0x01, 0x22]
                                       no_symbols 0 False [] [2])
                                     \<lparr>ca_labels := [(2, ADDR'), (1, JUMP)]\<rparr>)) a = Some JUMP
                 \<and> map_of (ca_labels (CodeAnalyzer_init [0x12, 0x00, 0x02, 0x12, 0x00, 0x01, 0x22]
                                       no_symbols 0 False [] [2])) a = None})"
proof -
  have run: "analyze_jumps small_set_slot
       (CodeAnalyzer_init [0x12, 0x00, 0x02, 0x12, 0x00, 0x01, 0x22] no_symbols 0 False [] [2]) 0 [9] False
     = Inr (7, (CodeAnalyzer_init [0x12, 0x00, 0x02, 0x12, 0x00, 0x01, 0x22] no_symbols 0 False [] [2])
                 \<lparr>ca_labels := [(2, ADDR'), (1, JUMP)]\<rparr>, [9, 1])"
    by (simp add: analyze_jumps_def analyze_loop.simps analyze_instr_def CodeAnalyzer_init_def
          rom_get_def Instructions_lcall Instructions_ret Instruction_def next_arg_def
          InstrArgsAnalyzer_init_def classify_def set_add_def set_iter_def)
  from analyze_jumps_appends_new_jumps [OF run] run show ?thesis
    by simp
qed

section \<open>The namer\<close>








section \<open>The worklist\<close>

subsection \<open>The loop terminates\<close>

termination worklist
proof (relation "(\<lambda>(slot, self, scanned, entry_queue).
                    card (all_targets (ca_rom self) (ca_offset self) - keys self))
                 <*mlex*> measure (\<lambda>(slot, self, scanned, entry_queue). length entry_queue)")
  show "wf ((\<lambda>(slot, self, scanned, entry_queue).
               card (all_targets (ca_rom self) (ca_offset self) - keys self))
            <*mlex*> measure (\<lambda>(slot, self, scanned, entry_queue). length entry_queue))"
    by (simp add: wf_mlex)
next
  fix slot :: "int list \<Rightarrow> int \<Rightarrow> nat" and self :: CodeAnalyzer and scanned :: "int list"
    and entry :: int and entry_queue :: "int list"
    and x :: "int \<times> CodeAnalyzer \<times> int list" and pc :: int and y :: "CodeAnalyzer \<times> int list"
    and self' :: CodeAnalyzer and entry_queue' :: "int list"
  assume "analyze_jumps slot self entry entry_queue False = Inr x"
    and "(pc, y) = x" and "(self', entry_queue') = y"
  then have call: "analyze_jumps slot self entry entry_queue False = Inr (pc, self', entry_queue')"
    by auto
  note step = analyze_jumps_step [OF call]
  let ?U = "all_targets (ca_rom self) (ca_offset self)"
  from step(5) obtain appended
    where q: "entry_queue' = entry_queue @ appended"
      and new: "set appended = {a. map_of (ca_labels self') a = Some JUMP \<and> map_of (ca_labels self) a = None}"
    by blast
  have sub: "?U - keys self' \<subseteq> ?U - keys self"
    using step(3) by blast
  have up: "keys self' \<subseteq> keys self \<union> ?U"
    using step(4) targets_from_all [of "ca_rom self" "ca_offset self" entry] by blast
  have fin: "finite (?U - keys self)"
    using all_targets_finite by simp
  show "((slot, self', scanned @ [entry], entry_queue'), (slot, self, scanned, entry # entry_queue))
          \<in> (\<lambda>(slot, self, scanned, entry_queue).
                 card (all_targets (ca_rom self) (ca_offset self) - keys self))
             <*mlex*> measure (\<lambda>(slot, self, scanned, entry_queue). length entry_queue)"
  proof (cases "appended = []")
    case True
    from sub fin have "card (?U - keys self') \<le> card (?U - keys self)"
      by (rule card_mono [rotated])
    with True q step(1,2) show ?thesis
      by (intro mlex_leq) simp_all
  next
    case False
    then obtain a where a: "a \<in> set appended"
      by (cases appended) auto
    with new have "a \<in> keys self'" and "a \<notin> keys self"
      by (simp_all add: keys_map_of)
    with up have "a \<in> ?U - keys self" and "a \<notin> ?U - keys self'"
      by auto
    with sub have "?U - keys self' \<subset> ?U - keys self"
      by blast
    with fin have "card (?U - keys self') < card (?U - keys self)"
      by (rule psubset_card_mono)
    with step(1,2) show ?thesis
      by (intro mlex_less) simp
  qed
qed

subsection \<open>The states of a run\<close>

lemma worklist_inv_start: "worklist_inv self seeds self [] seeds"
  by (auto simp: worklist_inv_def)

lemma worklist_inv_step:
  assumes inv: "worklist_inv self0 seeds self scanned (entry # entry_queue)"
    and call: "analyze_jumps slot self entry entry_queue force = Inr (pc, self', entry_queue')"
  shows "worklist_inv self0 seeds self' (scanned @ [entry]) entry_queue'"
proof -
  note step = analyze_jumps_step [OF call]
  from inv have rom: "ca_rom self = ca_rom self0" and off: "ca_offset self = ca_offset self0"
    and lower: "keys self0 \<subseteq> keys self"
    and upper: "keys self \<subseteq> keys self0
                  \<union> (\<Union>s \<in> set scanned. targets_from (ca_rom self0) (ca_offset self0) s)"
    and keep: "\<And>a t. map_of (ca_labels self0) a = Some t \<Longrightarrow> map_of (ca_labels self) a = Some t"
    by (simp_all add: worklist_inv_def)
  from inv obtain discovered
    where trace: "scanned @ entry # entry_queue = seeds @ discovered"
      and dist: "distinct discovered"
      and mem: "set discovered
                  = {a. map_of (ca_labels self) a = Some JUMP \<and> map_of (ca_labels self0) a = None}"
    by (auto simp: worklist_inv_def)
  from step(5) obtain appended
    where q: "entry_queue' = entry_queue @ appended" and adist: "distinct appended"
      and amem: "set appended
                   = {a. map_of (ca_labels self') a = Some JUMP \<and> map_of (ca_labels self) a = None}"
    by blast
  have keep': "\<And>a t. map_of (ca_labels self0) a = Some t \<Longrightarrow> map_of (ca_labels self') a = Some t"
    using keep step(6) by blast
  have none0: "map_of (ca_labels self0) a = None" if "map_of (ca_labels self) a = None" for a
    using that keep [of a] by (cases "map_of (ca_labels self0) a") auto
  have upper': "keys self' \<subseteq> keys self0
                  \<union> (\<Union>s \<in> set (scanned @ [entry]). targets_from (ca_rom self0) (ca_offset self0) s)"
    using step(4) upper rom off by auto
  have trace': "(scanned @ [entry]) @ entry_queue' = seeds @ (discovered @ appended)"
    using trace q by simp
  have disj: "set discovered \<inter> set appended = {}"
    using mem amem by auto
  have dist': "distinct (discovered @ appended)"
    using dist adist disj by simp
  have mem': "set (discovered @ appended)
                = {a. map_of (ca_labels self') a = Some JUMP \<and> map_of (ca_labels self0) a = None}"
  proof (rule set_eqI)
    fix a
    show "a \<in> set (discovered @ appended)
            \<longleftrightarrow> a \<in> {a. map_of (ca_labels self') a = Some JUMP \<and> map_of (ca_labels self0) a = None}"
    proof (cases "map_of (ca_labels self) a")
      case None
      with mem amem none0 [OF None] show ?thesis by auto
    next
      case (Some t)
      with step(6) [OF Some] mem amem show ?thesis by auto
    qed
  qed
  have lower': "keys self0 \<subseteq> keys self'"
    using lower step(3) by blast
  from step(1,2) rom off have config: "ca_rom self' = ca_rom self0" "ca_offset self' = ca_offset self0"
    by simp_all
  from trace' dist' mem'
  have "\<exists>discovered. (scanned @ [entry]) @ entry_queue' = seeds @ discovered \<and> distinct discovered
          \<and> set discovered
              = {a. map_of (ca_labels self') a = Some JUMP \<and> map_of (ca_labels self0) a = None}"
    by blast
  with config lower' upper' keep' show ?thesis
    unfolding worklist_inv_def by blast
qed

lemma worklist_steps_inv:
  assumes "worklist_inv self0 seeds self scanned entry_queue"
    and "worklist_steps slot n self scanned entry_queue = Inr (self', scanned', entry_queue')"
  shows "worklist_inv self0 seeds self' scanned' entry_queue'"
  using assms
proof (induction n arbitrary: self scanned entry_queue)
  case 0
  then show ?case by simp
next
  case (Suc n)
  show ?case
  proof (cases entry_queue)
    case Nil
    with Suc.prems show ?thesis by simp
  next
    case (Cons entry queue)
    with Suc.prems(2) obtain pc self1 queue1
      where call: "analyze_jumps slot self entry queue False = Inr (pc, self1, queue1)"
        and rest: "worklist_steps slot n self1 (scanned @ [entry]) queue1 = Inr (self', scanned', entry_queue')"
      by (auto split: sum.splits)
    from Suc.prems(1) Cons have "worklist_inv self0 seeds self scanned (entry # queue)"
      by simp
    from worklist_inv_step [OF this call] rest show ?thesis
      by (rule Suc.IH)
  qed
qed

lemma worklist_as_steps:
  "\<exists>n. case worklist slot self scanned entry_queue of
          Inl e \<Rightarrow> worklist_steps slot n self scanned entry_queue = Inl e
        | Inr (self', scanned') \<Rightarrow>
            worklist_steps slot n self scanned entry_queue = Inr (self', scanned', [])"
proof (induction slot self scanned entry_queue rule: worklist.induct)
  case (1 slot self scanned)
  show ?case
    by (rule exI [of _ 0]) simp
next
  case (2 slot self scanned entry entry_queue)
  show ?case
  proof (cases "analyze_jumps slot self entry entry_queue False")
    case (Inl e)
    then show ?thesis
      by (intro exI [of _ "Suc 0"]) simp
  next
    case (Inr r)
    obtain pc self1 queue1 where r: "r = (pc, self1, queue1)" by (cases r)
    from "2.IH" [OF Inr [unfolded r] refl refl] obtain n
      where "case worklist slot self1 (scanned @ [entry]) queue1 of
               Inl e \<Rightarrow> worklist_steps slot n self1 (scanned @ [entry]) queue1 = Inl e
             | Inr (self', scanned') \<Rightarrow>
                 worklist_steps slot n self1 (scanned @ [entry]) queue1 = Inr (self', scanned', [])"
      by blast
    with Inr r show ?thesis
      by (intro exI [of _ "Suc n"]) (auto split: sum.splits)
  qed
qed

lemma worklist_inv_bound:
  assumes "worklist_inv self0 seeds self scanned entry_queue"
    and "\<forall>s \<in> set scanned. 0 \<le> s"
  shows "card (keys self) \<le> card (keys self0) + length (ca_rom self0)"
proof -
  let ?T = "targets_from (ca_rom self0) (ca_offset self0) 0"
  from assms(2) have "(\<Union>s \<in> set scanned. targets_from (ca_rom self0) (ca_offset self0) s) \<subseteq> ?T"
    using targets_from_mono [of 0 _ "ca_rom self0" "ca_offset self0"] by blast
  moreover from assms(1)
  have "keys self \<subseteq> keys self0
          \<union> (\<Union>s \<in> set scanned. targets_from (ca_rom self0) (ca_offset self0) s)"
    by (simp add: worklist_inv_def)
  ultimately have "keys self \<subseteq> keys self0 \<union> ?T"
    by blast
  then have "card (keys self) \<le> card (keys self0 \<union> ?T)"
    by (intro card_mono) (simp_all add: keys_def targets_from_finite)
  also have "\<dots> \<le> card (keys self0) + card ?T"
    by (rule card_Un_le)
  also have "\<dots> \<le> card (keys self0) + length (ca_rom self0)"
    using targets_from_card [of "ca_rom self0" "ca_offset self0"] by simp
  finally show ?thesis .
qed

subsection \<open>Addresses below zero\<close>

lemma rom_get_nonneg:
  assumes "rom_get rom i = Inr b"
  shows "0 \<le> b"
  using assms by (auto simp: rom_get_def Let_def split: if_splits)

lemma next_arg_offset:
  assumes "next_arg analyzer iarg = Inr (res, analyzer')"
  shows "ia_offset analyzer' = ia_offset analyzer"
  using assms by (auto simp: next_arg_def Let_def split: if_splits sum.splits)

lemma next_arg_LABEL_nonneg:
  assumes "next_arg analyzer iarg = Inr (Some (LABEL, val, hint), analyzer')"
    and "ia_offset analyzer \<le> 0"
  shows "0 \<le> val"
proof (cases "iarg = LABEL")
  case True
  with assms(1) obtain high low :: int
    where "0 \<le> high" and "0 \<le> low" and val: "val = (push_bit 8 high OR low) - ia_offset analyzer"
    by (auto simp: next_arg_def Let_def split: if_splits sum.splits dest!: rom_get_nonneg)
  then have "0 \<le> push_bit 8 high OR low"
    by simp
  with val assms(2) show ?thesis
    by linarith
next
  case False
  with assms show ?thesis
    by (cases iarg)
       (auto simp: next_arg_def Let_def split: if_splits sum.splits dest!: rom_get_nonneg)
qed

lemma arg_targets_nonneg:
  assumes "ia_offset analyzer \<le> 0" and "v \<in> set (arg_targets analyzer xs)"
  shows "0 \<le> v"
  using assms
proof (induction xs arbitrary: analyzer)
  case Nil
  then show ?case by simp
next
  case (Cons iarg rest)
  show ?case
  proof (cases "next_arg analyzer iarg")
    case (Inl e)
    with Cons.prems show ?thesis by simp
  next
    case (Inr r)
    obtain res analyzer' where r: "r = (res, analyzer')" by (cases r)
    show ?thesis
    proof (cases res)
      case None
      with Cons.prems Inr r show ?thesis by simp
    next
      case (Some t)
      obtain arg val hint where t: "t = (arg, val, hint)" by (cases t)
      from Cons.prems(2) Inr r Some t
      consider "arg = LABEL" and "v = val" | "v \<in> set (arg_targets analyzer' rest)"
        by (auto split: if_splits)
      then show ?thesis
      proof cases
        case 1
        with Inr r Some t Cons.prems(1) show ?thesis
          using next_arg_LABEL_nonneg by blast
      next
        case 2
        from next_arg_offset [OF Inr [unfolded r]] Cons.prems(1) have "ia_offset analyzer' \<le> 0"
          by simp
        from this 2 show ?thesis
          by (rule Cons.IH)
      qed
    qed
  qed
qed

lemma targets_from_nonneg:
  assumes "offset \<le> 0" and "v \<in> targets_from rom offset lo"
  shows "0 \<le> v"
proof -
  from assms(2) obtain pc where "v \<in> set (targets_at rom offset pc)"
    by (auto simp: targets_from_def other_targets_at_def)
  then obtain instr :: Instruction
    where "v \<in> set (arg_targets (InstrArgsAnalyzer_init rom pc (pc + i_length instr) offset) (i_args instr))"
    by (auto simp: targets_at_def split: sum.splits option.splits)
  moreover have "ia_offset (InstrArgsAnalyzer_init rom pc (pc + i_length instr) offset) \<le> 0"
    using assms(1) by (simp add: InstrArgsAnalyzer_init_def)
  ultimately show ?thesis
    using arg_targets_nonneg by blast
qed

lemma worklist_steps_nonneg:
  assumes "worklist_steps slot n self scanned entry_queue = Inr (self', scanned', entry_queue')"
    and "ca_offset self \<le> 0"
    and "\<forall>s \<in> set (scanned @ entry_queue). 0 \<le> s"
  shows "\<forall>s \<in> set (scanned' @ entry_queue'). 0 \<le> s"
  using assms
proof (induction n arbitrary: self scanned entry_queue)
  case 0
  then show ?case by simp
next
  case (Suc n)
  show ?case
  proof (cases entry_queue)
    case Nil
    with Suc.prems show ?thesis by simp
  next
    case (Cons entry queue)
    with Suc.prems(1) obtain pc self1 queue1
      where call: "analyze_jumps slot self entry queue False = Inr (pc, self1, queue1)"
        and rest: "worklist_steps slot n self1 (scanned @ [entry]) queue1 = Inr (self', scanned', entry_queue')"
      by (auto split: sum.splits)
    note step = analyze_jumps_step [OF call]
    from step(5) obtain appended
      where q: "queue1 = queue @ appended"
        and new: "set appended
                    = {a. map_of (ca_labels self1) a = Some JUMP \<and> map_of (ca_labels self) a = None}"
      by blast
    have "0 \<le> a" if "a \<in> set appended" for a
    proof -
      from that new have "a \<in> keys self1" and "a \<notin> keys self"
        by (simp_all add: keys_map_of)
      with step(4) have "a \<in> targets_from (ca_rom self) (ca_offset self) entry"
        by blast
      with Suc.prems(2) show ?thesis
        by (rule targets_from_nonneg)
    qed
    with Suc.prems(3) Cons q have "\<forall>s \<in> set ((scanned @ [entry]) @ queue1). 0 \<le> s"
      by auto
    moreover from step(2) Suc.prems(2) have "ca_offset self1 \<le> 0"
      by simp
    ultimately show ?thesis
      using rest Suc.IH by blast
  qed
qed

text \<open>
  The bound by the ROM length is for scans from non-negative addresses. With the bias
  14 the two \<^verbatim>\<open>lcall\<close> operands of this 14-byte ROM resolve to the addresses \<open>-14\<close> and
  \<open>-7\<close>; scanned from there, the same bytes are read through negative indices, and the
  relative jumps resolve to other targets than from the non-negative addresses. The run
  from the seeds 0 and 7, with every set walked in the order of its additions, ends with
  16 addresses in the table.
\<close>

lemma worklist_outgrows_rom:
  "(case worklist (\<lambda>history v. 0)
           (CodeAnalyzer_init
              [0x12, 0x00, 0x00, 0x12, 0x00, 0x07, 0x40, 0x40, 0x40, 0x40, 0x40, 0x40, 0x40, 0x22]
              no_symbols 14 False [] []) [] [0, 7] of
      Inl e \<Rightarrow> []
    | Inr (self', scanned) \<Rightarrow> map fst (ca_labels self'))
   = [- 14, - 7, 72, 74, 76, 48, 73, 75, 77, 58, 60, 62, 34, 59, 61, 63]"
  by (simp add: analyze_jumps_def analyze_loop.simps analyze_instr_def CodeAnalyzer_init_def
        rom_get_def Instructions_lcall Instructions_jc Instructions_ret Instruction_def next_arg_def
        InstrArgsAnalyzer_init_def classify_def set_add_def set_iter_def)

text \<open>
  C3 as stated fails in two places. With the ROM \<open>00 02 00 00\<close>, five pre-seeded
  indirect targets and the seed 0, the run ends with six entries in the label table,
  more than the four bytes of the ROM; and address 0 is popped twice, once as the seed
  and once because the \<^verbatim>\<open>ljmp\<close> at address 1 discovers it: a seed is not in the label
  table, so nothing gates it.
\<close>

theorem worklist_bound_counterexample:
  "worklist small_set_slot
       (CodeAnalyzer_init [0x00, 0x02, 0x00, 0x00] no_symbols 0 False [] [10, 11, 12, 13, 14]) [] [0]
     = Inr ((CodeAnalyzer_init [0x00, 0x02, 0x00, 0x00] no_symbols 0 False [] [10, 11, 12, 13, 14])
              \<lparr>ca_labels := [(10, ADDR'), (11, ADDR'), (12, ADDR'), (13, ADDR'), (14, ADDR'), (0, JUMP)]\<rparr>,
            [0, 0])
   \<and> \<not> length [(10, ADDR'), (11, ADDR'), (12, ADDR'), (13, ADDR'), (14, ADDR'), (0 :: int, JUMP)]
         \<le> length [0x00, 0x02, 0x00, 0x00 :: 8 word]
   \<and> \<not> distinct [0, 0 :: int]"
  by (simp add: analyze_jumps_def analyze_loop.simps analyze_instr_def CodeAnalyzer_init_def
        rom_get_def Instructions_nop Instructions_ljmp_unfolded Instruction_def next_arg_def
        InstrArgsAnalyzer_init_def classify_def set_add_def set_iter_def)

text \<open>
  C3, amended. A call of the scan never removes an address from the label table, so the
  number of addresses in it never decreases; and every address that the call appends to
  the queue was absent from the table before that call, is in it afterwards, and is
  appended once. At every point of a run of the worklist, also of a run that a scan
  later ends with an exception: the table holds the addresses it held at the start; as
  long as every address scanned so far is non-negative, which is so when the seeds are
  and the bias is not positive, it holds at most the ROM length more addresses than it
  held at the start (pre-seeded entries included in the start); and the addresses
  popped or still queued are the seeds followed by the addresses that the run has
  classified as \<^verbatim>\<open>JUMP\<close> and that had no entry at the start, each exactly once. Seeds
  are not gated by the label table. The run always ends, after some number of rounds:
  with an exception raised by a scan, or with the queue empty.
\<close>

theorem worklist_terminates_with_bounded_table:
  "(\<forall>analyzer start entry_queue force pc analyzer1 entry_queue1.
       analyze_jumps slot analyzer start entry_queue force = Inr (pc, analyzer1, entry_queue1)
       \<longrightarrow> keys analyzer \<subseteq> keys analyzer1 \<and> card (keys analyzer) \<le> card (keys analyzer1)
           \<and> (\<exists>appended. entry_queue1 = entry_queue @ appended \<and> distinct appended
                 \<and> set appended \<inter> keys analyzer = {} \<and> set appended \<subseteq> keys analyzer1))
   \<and> (\<forall>n self' scanned entry_queue'.
        worklist_steps slot n self [] seeds = Inr (self', scanned, entry_queue')
        \<longrightarrow> keys self \<subseteq> keys self'
            \<and> ((\<forall>s \<in> set scanned. 0 \<le> s)
                 \<longrightarrow> card (keys self') \<le> card (keys self) + length (ca_rom self))
            \<and> (ca_offset self \<le> 0 \<and> (\<forall>s \<in> set seeds. 0 \<le> s) \<longrightarrow> (\<forall>s \<in> set scanned. 0 \<le> s))
            \<and> (\<exists>discovered. scanned @ entry_queue' = seeds @ discovered \<and> distinct discovered
                  \<and> set discovered
                      = {a. map_of (ca_labels self') a = Some JUMP \<and> map_of (ca_labels self) a = None}))
   \<and> (\<exists>n. case worklist slot self [] seeds of
              Inl e \<Rightarrow> worklist_steps slot n self [] seeds = Inl e
            | Inr (self', scanned) \<Rightarrow> worklist_steps slot n self [] seeds = Inr (self', scanned, []))"
proof (intro conjI allI impI)
  fix analyzer start entry_queue force pc analyzer1 entry_queue1
  assume call: "analyze_jumps slot analyzer start entry_queue force = Inr (pc, analyzer1, entry_queue1)"
  then show sub: "keys analyzer \<subseteq> keys analyzer1"
    by (rule analyze_jumps_step(3))
  then show "card (keys analyzer) \<le> card (keys analyzer1)"
    by (intro card_mono) (simp_all add: keys_def)
  from analyze_jumps_step(5) [OF call] obtain appended
    where "entry_queue1 = entry_queue @ appended" and "distinct appended"
      and "set appended
             = {a. map_of (ca_labels analyzer1) a = Some JUMP \<and> map_of (ca_labels analyzer) a = None}"
    by blast
  then have "entry_queue1 = entry_queue @ appended \<and> distinct appended
               \<and> set appended \<inter> keys analyzer = {} \<and> set appended \<subseteq> keys analyzer1"
    by (auto simp: keys_map_of)
  then show "\<exists>appended. entry_queue1 = entry_queue @ appended \<and> distinct appended
               \<and> set appended \<inter> keys analyzer = {} \<and> set appended \<subseteq> keys analyzer1"
    by blast
next
  fix n self' scanned entry_queue'
  assume steps: "worklist_steps slot n self [] seeds = Inr (self', scanned, entry_queue')"
  from worklist_inv_start steps have inv: "worklist_inv self seeds self' scanned entry_queue'"
    by (rule worklist_steps_inv)
  then show "keys self \<subseteq> keys self'"
    by (simp add: worklist_inv_def)
  from inv
  show "\<exists>discovered. scanned @ entry_queue' = seeds @ discovered \<and> distinct discovered
          \<and> set discovered
              = {a. map_of (ca_labels self') a = Some JUMP \<and> map_of (ca_labels self) a = None}"
    by (simp add: worklist_inv_def)
  {
    assume "\<forall>s \<in> set scanned. 0 \<le> s"
    with inv show "card (keys self') \<le> card (keys self) + length (ca_rom self)"
      by (rule worklist_inv_bound)
  }
  {
    assume "ca_offset self \<le> 0 \<and> (\<forall>s \<in> set seeds. 0 \<le> s)"
    with worklist_steps_nonneg [OF steps] show "\<forall>s \<in> set scanned. 0 \<le> s"
      by simp
  }
next
  show "\<exists>n. case worklist slot self [] seeds of
              Inl e \<Rightarrow> worklist_steps slot n self [] seeds = Inl e
            | Inr (self', scanned) \<Rightarrow> worklist_steps slot n self [] seeds = Inr (self', scanned, [])"
    by (rule worklist_as_steps)
qed

theorem worklist_terminates_with_bounded_table_witness:
  "analyze_jumps small_set_slot (CodeAnalyzer_init [0x02, 0x00, 0x03, 0x22] no_symbols 0 False [] []) 0 [] False
     = Inr (3, (CodeAnalyzer_init [0x02, 0x00, 0x03, 0x22] no_symbols 0 False [] [])
                 \<lparr>ca_labels := [(3, JUMP)], ca_forwards := [0 \<mapsto> 3]\<rparr>, [3])
   \<and> worklist_steps small_set_slot 1 (CodeAnalyzer_init [0x02, 0x00, 0x03, 0x22] no_symbols 0 False [] [])
         [] [0]
       = Inr ((CodeAnalyzer_init [0x02, 0x00, 0x03, 0x22] no_symbols 0 False [] [])
                \<lparr>ca_labels := [(3, JUMP)], ca_forwards := [0 \<mapsto> 3]\<rparr>, [0], [3])
   \<and> worklist small_set_slot (CodeAnalyzer_init [0x02, 0x00, 0x03, 0x22] no_symbols 0 False [] []) [] [0]
       = Inr ((CodeAnalyzer_init [0x02, 0x00, 0x03, 0x22] no_symbols 0 False [] [])
                \<lparr>ca_labels := [(3, JUMP)], ca_forwards := [0 \<mapsto> 3]\<rparr>, [0, 3])
   \<and> ca_offset (CodeAnalyzer_init [0x02, 0x00, 0x03, 0x22] no_symbols 0 False [] []) \<le> 0
   \<and> list_all (\<lambda>s. 0 \<le> s) [0 :: int]
   \<and> keys (CodeAnalyzer_init [0x02, 0x00, 0x03, 0x22] no_symbols 0 False [] [])
       \<subseteq> keys ((CodeAnalyzer_init [0x02, 0x00, 0x03, 0x22] no_symbols 0 False [] [])
                  \<lparr>ca_labels := [(3, JUMP)], ca_forwards := [0 \<mapsto> 3]\<rparr>)
   \<and> card (keys ((CodeAnalyzer_init [0x02, 0x00, 0x03, 0x22] no_symbols 0 False [] [])
                    \<lparr>ca_labels := [(3, JUMP)], ca_forwards := [0 \<mapsto> 3]\<rparr>))
       \<le> card (keys (CodeAnalyzer_init [0x02, 0x00, 0x03, 0x22] no_symbols 0 False [] []))
            + length (ca_rom (CodeAnalyzer_init [0x02, 0x00, 0x03, 0x22] no_symbols 0 False [] []))
   \<and> (\<exists>appended. [3] = [] @ appended \<and> distinct appended
         \<and> set appended \<inter> keys (CodeAnalyzer_init [0x02, 0x00, 0x03, 0x22] no_symbols 0 False [] []) = {})"
proof -
  define first where "first = CodeAnalyzer_init [0x02, 0x00, 0x03, 0x22] no_symbols 0 False [] []"
  define last where "last = first\<lparr>ca_labels := [(3, JUMP)], ca_forwards := [0 \<mapsto> 3]\<rparr>"
  have scan: "analyze_jumps small_set_slot first 0 [] False = Inr (3, last, [3])"
    by (simp add: first_def last_def analyze_jumps_def analyze_loop.simps analyze_instr_def
          CodeAnalyzer_init_def rom_get_def Instructions_ljmp_unfolded next_arg_def
          InstrArgsAnalyzer_init_def classify_def set_add_def set_iter_def)
  have scan3: "analyze_jumps small_set_slot last 3 [] False = Inr (4, last, [])"
    by (simp add: first_def last_def analyze_jumps_def analyze_loop.simps analyze_instr_def
          CodeAnalyzer_init_def rom_get_def Instructions_ret Instruction_def set_iter_def)
  from scan have round: "worklist_steps small_set_slot 1 first [] [0] = Inr (last, [0], [3])"
    by simp
  from scan scan3 have rounds: "worklist_steps small_set_slot 2 first [] [0] = Inr (last, [0, 3], [])"
    by (simp add: numeral_2_eq_2)
  from scan scan3 have run: "worklist small_set_slot first [] [0] = Inr (last, [0, 3])"
    by simp
  have bias: "ca_offset first \<le> 0"
    by (simp add: first_def CodeAnalyzer_init_def)
  note claim = worklist_terminates_with_bounded_table [of small_set_slot first "[0]"]
  from claim scan have appended: "\<exists>appended. [3] = [] @ appended \<and> distinct appended
         \<and> set appended \<inter> keys first = {}"
    by blast
  from claim rounds have sub: "keys first \<subseteq> keys last"
    and nonneg: "ca_offset first \<le> 0 \<and> (\<forall>s \<in> set [0 :: int]. 0 \<le> s) \<longrightarrow> (\<forall>s \<in> set [0, 3 :: int]. 0 \<le> s)"
    and bound: "(\<forall>s \<in> set [0, 3 :: int]. 0 \<le> s) \<longrightarrow> card (keys last) \<le> card (keys first) + length (ca_rom first)"
    by blast+
  from nonneg bias bound have "card (keys last) \<le> card (keys first) + length (ca_rom first)"
    by simp
  with scan round run bias sub appended show ?thesis
    by (simp add: first_def last_def)
qed

end
